theory Spec2Isabelle
  imports Complex_Main "HOL-Library.AList" "HOL-Library.Sublist"
begin

section \<open>Connect-4 boards and rules (class GameBoard)\<close>

text \<open>
  The repository holds two engines, \<^verbatim>\<open>connect4_AMAF.py\<close> and \<^verbatim>\<open>connect4_RAVE.py\<close>.
  They repeat the same classes with small differences. A function that differs between
  the two files takes the file as its first argument and has one branch per file; a
  function that is the same in both is given once.
\<close>

datatype variant = AMAF | RAVE

datatype py_error = IndexError | ZeroDivisionError | AttributeError

text \<open>
  A board is the NumPy array \<^verbatim>\<open>np.zeros(shape=(6, 7))\<close>: six rows of seven cells,
  \<^verbatim>\<open>board[j, i]\<close> is row \<open>j\<close>, column \<open>i\<close>. Row 0 is the bottom row (a move lands in the
  first row whose cell is 0), row 5 the top. A cell holds 0 (empty) or a player's
  number.
\<close>

type_synonym board = "int list list"

definition zeros :: board where
  "zeros = replicate 6 (replicate 7 0)"

definition cell :: "board \<Rightarrow> nat \<Rightarrow> nat \<Rightarrow> int" where
  "cell b j i = b ! j ! i"

definition set_cell :: "board \<Rightarrow> nat \<Rightarrow> nat \<Rightarrow> int \<Rightarrow> board" where
  "set_cell b j i v = b[j := (b ! j)[i := v]]"

definition shape_ok :: "board \<Rightarrow> bool" where
  "shape_ok b \<longleftrightarrow> length b = 6 \<and> list_all (\<lambda>r. length r = 7) b"

definition marks_ok :: "board \<Rightarrow> bool" where
  "marks_ok b \<longleftrightarrow> list_all (list_all (\<lambda>c. c = 0 \<or> c = 1 \<or> c = 2)) b"

text \<open>Gravity: in every column, the cells above an empty cell are empty.\<close>

definition stacked :: "board \<Rightarrow> bool" where
  "stacked b \<longleftrightarrow> list_all (\<lambda>i. list_all (\<lambda>j. cell b j i = 0 \<longrightarrow> cell b (Suc j) i = 0) [0..<5]) [0..<7]"

text \<open>
  NumPy indexing along an axis of length \<open>len\<close>: an index from \<open>-len\<close> to \<open>-1\<close> counts from
  the end, anything outside \<open>-len .. len - 1\<close> raises IndexError.
\<close>

definition np_index :: "nat \<Rightarrow> int \<Rightarrow> py_error + nat" where
  "np_index len k =
     (if 0 \<le> k \<and> k < int len then Inr (nat k)
      else if - int len \<le> k \<and> k < 0 then Inr (nat (int len + k))
      else Inl IndexError)"

subsection \<open>Win and tie checks\<close>

text \<open>\<^verbatim>\<open>a == b == c == d != 0\<close>\<close>

definition chain4 :: "int \<Rightarrow> int \<Rightarrow> int \<Rightarrow> int \<Rightarrow> bool" where
  "chain4 a b c d \<longleftrightarrow> a = b \<and> b = c \<and> c = d \<and> d \<noteq> 0"

text \<open>
  The nested \<^verbatim>\<open>for\<close> loops of the checks return at the first hit, so each is a search
  for the first position, in loop order, at which the test holds.
\<close>

definition amaf_check_rows :: "board \<Rightarrow> int option" where
  "amaf_check_rows b =
     map_option (\<lambda>(y, x). cell b y x)
       (find (\<lambda>(y, x). chain4 (cell b y x) (cell b y (x + 1)) (cell b y (x + 2)) (cell b y (x + 3)))
          [(y, x). y \<leftarrow> [0..<6], x \<leftarrow> [0..<4]])"

definition amaf_check_cols :: "board \<Rightarrow> int option" where
  "amaf_check_cols b =
     map_option (\<lambda>(x, y). cell b y x)
       (find (\<lambda>(x, y). chain4 (cell b y x) (cell b (y + 1) x) (cell b (y + 2) x) (cell b (y + 3) x))
          [(x, y). x \<leftarrow> [0..<7], y \<leftarrow> [0..<3]])"

definition amaf_check_diag :: "board \<Rightarrow> int option" where
  "amaf_check_diag b =
     (case find (\<lambda>(y, x). chain4 (cell b y x) (cell b (y + 1) (x + 1)) (cell b (y + 2) (x + 2))
                              (cell b (y + 3) (x + 3)))
             [(y, x). y \<leftarrow> [0..<3], x \<leftarrow> [0..<4]] of
        Some (y, x) \<Rightarrow> Some (cell b y x)
      | None \<Rightarrow>
          map_option (\<lambda>(y, x). cell b y x)
            (find (\<lambda>(y, x). chain4 (cell b y x) (cell b (y + 1) (x - 1)) (cell b (y + 2) (x - 2))
                                 (cell b (y + 3) (x - 3)))
               [(y, x). y \<leftarrow> [0..<3], x \<leftarrow> [3..<7]]))"

text \<open>\<^verbatim>\<open>np.all(board != 0)\<close>\<close>

definition all_nonzero :: "board \<Rightarrow> bool" where
  "all_nonzero b = list_all (list_all (\<lambda>c. c \<noteq> 0)) b"

definition amaf_check_tie :: "board \<Rightarrow> bool" where
  "amaf_check_tie b = all_nonzero b"

text \<open>
  The RAVE file tests a run with \<^verbatim>\<open>row[x : x + 4].count(row[x]) == 4\<close> and a diagonal with
  \<^verbatim>\<open>diag.count(1) == 4 or diag.count(2) == 4\<close>, over explicit lists of start points.
\<close>

definition rave_check_rows :: "board \<Rightarrow> int option" where
  "rave_check_rows b =
     map_option (\<lambda>(y, x). b ! y ! x)
       (find (\<lambda>(y, x). count_list (take 4 (drop x (b ! y))) (b ! y ! x) = 4 \<and> b ! y ! x \<noteq> 0)
          [(y, x). y \<leftarrow> [0..<6], x \<leftarrow> [0..<4]])"

definition column :: "board \<Rightarrow> nat \<Rightarrow> int list" where
  "column b x = map (\<lambda>r. r ! x) b"

definition rave_check_cols :: "board \<Rightarrow> int option" where
  "rave_check_cols b =
     map_option (\<lambda>(x, y). column b x ! y)
       (find (\<lambda>(x, y). count_list (take 4 (drop y (column b x))) (column b x ! y) = 4
                       \<and> column b x ! y \<noteq> 0)
          [(x, y). x \<leftarrow> [0..<7], y \<leftarrow> [0..<3]])"

definition right_points :: "(nat \<times> nat) list" where
  "right_points = [(3, 0), (4, 0), (3, 1), (5, 0), (4, 1), (3, 2), (5, 1), (4, 2),
                   (3, 3), (5, 2), (4, 3), (5, 3)]"

definition left_points :: "(nat \<times> nat) list" where
  "left_points = [(5, 3), (5, 4), (4, 3), (5, 5), (4, 4), (3, 3), (5, 6), (4, 5),
                  (3, 4), (4, 6), (3, 5), (3, 6)]"

definition right_diag :: "board \<Rightarrow> nat \<times> nat \<Rightarrow> int list" where
  "right_diag b p = map (\<lambda>k. cell b (fst p - k) (snd p + k)) [0..<4]"

definition left_diag :: "board \<Rightarrow> nat \<times> nat \<Rightarrow> int list" where
  "left_diag b p = map (\<lambda>k. cell b (fst p - k) (snd p - k)) [0..<4]"

definition four_of :: "int list \<Rightarrow> bool" where
  "four_of diag \<longleftrightarrow> count_list diag 1 = 4 \<or> count_list diag 2 = 4"

definition rave_check_diag :: "board \<Rightarrow> int option" where
  "rave_check_diag b =
     (case find (\<lambda>p. four_of (right_diag b p)) right_points of
        Some p \<Rightarrow> Some (right_diag b p ! 0)
      | None \<Rightarrow> map_option (\<lambda>p. left_diag b p ! 0) (find (\<lambda>p. four_of (left_diag b p)) left_points))"

text \<open>
  Truth value of an \<^verbatim>\<open>Optional\<close> number, as \<^verbatim>\<open>not check(board)\<close> and
  \<^verbatim>\<open>if check(board)\<close> read it: \<^verbatim>\<open>None\<close> and 0 are false.
\<close>

definition truthy :: "int option \<Rightarrow> bool" where
  "truthy r = (case r of None \<Rightarrow> False | Some w \<Rightarrow> w \<noteq> 0)"

definition rave_check_tie :: "board \<Rightarrow> bool" where
  "rave_check_tie b \<longleftrightarrow>
     all_nonzero b \<and> \<not> truthy (rave_check_rows b) \<and> \<not> truthy (rave_check_cols b)
     \<and> \<not> truthy (rave_check_diag b)"

definition check_rows :: "variant \<Rightarrow> board \<Rightarrow> int option" where
  "check_rows v b = (case v of AMAF \<Rightarrow> amaf_check_rows b | RAVE \<Rightarrow> rave_check_rows b)"

definition check_cols :: "variant \<Rightarrow> board \<Rightarrow> int option" where
  "check_cols v b = (case v of AMAF \<Rightarrow> amaf_check_cols b | RAVE \<Rightarrow> rave_check_cols b)"

definition check_diag :: "variant \<Rightarrow> board \<Rightarrow> int option" where
  "check_diag v b = (case v of AMAF \<Rightarrow> amaf_check_diag b | RAVE \<Rightarrow> rave_check_diag b)"

definition check_tie :: "variant \<Rightarrow> board \<Rightarrow> bool" where
  "check_tie v b = (case v of AMAF \<Rightarrow> amaf_check_tie b | RAVE \<Rightarrow> rave_check_tie b)"

text \<open>
  \<^verbatim>\<open>GameBoard.check_win\<close>: rows, then columns, then diagonals, then the tie. The result
  is the pair (game over, winner or \<^verbatim>\<open>None\<close>).
\<close>

definition check_win :: "variant \<Rightarrow> board \<Rightarrow> bool \<times> int option" where
  "check_win v b =
     (case check_rows v b of Some w \<Rightarrow> (True, Some w) | None \<Rightarrow>
      (case check_cols v b of Some w \<Rightarrow> (True, Some w) | None \<Rightarrow>
       (case check_diag v b of Some w \<Rightarrow> (True, Some w) | None \<Rightarrow>
        if check_tie v b then (True, None) else (False, None))))"

subsection \<open>Applying a move\<close>

record gameboard =
  gb_turn :: int
  gb_board :: board
  gb_cpu :: int

definition switch_turn :: "variant \<Rightarrow> gameboard \<Rightarrow> gameboard" where
  "switch_turn v g =
     (case v of
        AMAF \<Rightarrow> g\<lparr>gb_turn := 3 - gb_turn g\<rparr>
      | RAVE \<Rightarrow> if gb_turn g = 1 then g\<lparr>gb_turn := 2\<rparr> else g\<lparr>gb_turn := 1\<rparr>)"

text \<open>The loop \<^verbatim>\<open>for i in range(6)\<close> of \<^verbatim>\<open>apply_move\<close>, at a valid column index \<open>c\<close>.\<close>

fun apply_move_rows :: "variant \<Rightarrow> gameboard \<Rightarrow> nat \<Rightarrow> nat list \<Rightarrow> bool \<times> gameboard" where
  "apply_move_rows v g c [] = (False, g)"
| "apply_move_rows v g c (i # rest) =
     (if cell (gb_board g) i c = 0
      then (True, switch_turn v (g\<lparr>gb_board := set_cell (gb_board g) i c (gb_turn g)\<rparr>))
      else apply_move_rows v g c rest)"

text \<open>
  \<^verbatim>\<open>apply_move(column)\<close> reads \<^verbatim>\<open>self.board[i, column - 1]\<close>; the first read raises
  IndexError when \<^verbatim>\<open>column - 1\<close> is outside \<open>-7 .. 6\<close>.
\<close>

definition apply_move :: "variant \<Rightarrow> gameboard \<Rightarrow> int \<Rightarrow> py_error + (bool \<times> gameboard)" where
  "apply_move v g col =
     (case np_index 7 (col - 1) of
        Inl e \<Rightarrow> Inl e
      | Inr c \<Rightarrow> Inr (apply_move_rows v g c [0..<6]))"

text \<open>The lowest empty cell of column \<open>i\<close> is in row \<open>j\<close>.\<close>

definition lowest_empty :: "board \<Rightarrow> nat \<Rightarrow> nat \<Rightarrow> bool" where
  "lowest_empty b i j \<longleftrightarrow> j < 6 \<and> cell b j i = 0 \<and> (\<forall>j'<j. cell b j' i \<noteq> 0)"

subsection \<open>What the rules say: lines of four and full boards\<close>

text \<open>
  Written from the rules of the game, not from the code: a line is four equal non-empty
  marks in a row, in a column, or on a diagonal in either direction, inside the 6 by 7
  grid. The checks of both files are compared with these below.
\<close>

definition row_line :: "board \<Rightarrow> bool" where
  "row_line b \<longleftrightarrow> (\<exists>y<6. \<exists>x<4. chain4 (cell b y x) (cell b y (x + 1)) (cell b y (x + 2)) (cell b y (x + 3)))"

definition col_line :: "board \<Rightarrow> bool" where
  "col_line b \<longleftrightarrow> (\<exists>x<7. \<exists>y<3. chain4 (cell b y x) (cell b (y + 1) x) (cell b (y + 2) x) (cell b (y + 3) x))"

definition rising_line :: "board \<Rightarrow> bool" where
  "rising_line b \<longleftrightarrow> (\<exists>y<3. \<exists>x<4. chain4 (cell b y x) (cell b (y + 1) (x + 1)) (cell b (y + 2) (x + 2)) (cell b (y + 3) (x + 3)))"

definition falling_line :: "board \<Rightarrow> bool" where
  "falling_line b \<longleftrightarrow> (\<exists>y<3. \<exists>x<4. chain4 (cell b y (x + 3)) (cell b (y + 1) (x + 2)) (cell b (y + 2) (x + 1)) (cell b (y + 3) x))"

definition has_line :: "board \<Rightarrow> bool" where
  "has_line b \<longleftrightarrow> row_line b \<or> col_line b \<or> rising_line b \<or> falling_line b"

definition full :: "board \<Rightarrow> bool" where
  "full b \<longleftrightarrow> (\<forall>y<6. \<forall>x<7. cell b y x \<noteq> 0)"

section \<open>The search tree (class Node)\<close>

text \<open>
  Python objects are shared by reference and NumPy arrays are updated in place, so both
  live in stores. \<open>arrays\<close> holds every array allocated so far; an array is named by its
  position. \<open>nodes\<close> holds every \<^verbatim>\<open>Node\<close> allocated so far; \<^verbatim>\<open>node.board\<close> is the name of
  an array, \<^verbatim>\<open>node.parent\<close> and the entries of \<^verbatim>\<open>node.children\<close> are names of nodes.
  \<^verbatim>\<open>q\<close>, \<^verbatim>\<open>n\<close>, \<^verbatim>\<open>rave_q\<close> and \<^verbatim>\<open>rave_n\<close> start at 0 and are only ever incremented, so they
  are natural numbers. The RAVE fields exist in the RAVE file only and stay 0 in the
  AMAF engine; \<open>amaf_stats\<close> is the dictionary of the AMAF engine and stays empty in the
  RAVE engine. \<open>draws\<close> counts the calls of \<^verbatim>\<open>random.choice\<close>.
\<close>

type_synonym action = "nat \<times> nat"

record node =
  node_q :: nat
  node_n :: nat
  rave_q :: nat
  rave_n :: nat
  node_parent :: "nat option"
  node_board :: nat
  node_turn :: int
  node_children :: "nat list"
  node_terminal :: bool
  node_expanded :: bool

record state =
  arrays :: "board list"
  nodes :: "node list"
  amaf_stats :: "(action \<times> (nat \<times> nat)) list"
  draws :: nat

text \<open>\<^verbatim>\<open>board.copy()\<close> allocates a new array; \<^verbatim>\<open>arr[j, i] = v\<close> updates an array in place.\<close>

definition copy_array :: "state \<Rightarrow> nat \<Rightarrow> nat \<times> state" where
  "copy_array st a = (length (arrays st), st\<lparr>arrays := arrays st @ [arrays st ! a]\<rparr>)"

definition write_cell :: "state \<Rightarrow> nat \<Rightarrow> nat \<Rightarrow> nat \<Rightarrow> int \<Rightarrow> state" where
  "write_cell st a j i v = st\<lparr>arrays := (arrays st)[a := set_cell (arrays st ! a) j i v]\<rparr>"

definition board_of :: "state \<Rightarrow> nat \<Rightarrow> board" where
  "board_of st k = arrays st ! node_board (nodes st ! k)"

text \<open>
  \<^verbatim>\<open>Node.check_terminal\<close>: \<^verbatim>\<open>any(check(self.board) for check in [...]) or check_tie(...)\<close>
  in the AMAF file, a chain of \<^verbatim>\<open>if check(self.board): return True\<close> in the RAVE file.
\<close>

definition check_terminal :: "variant \<Rightarrow> board \<Rightarrow> bool" where
  "check_terminal v b \<longleftrightarrow>
     truthy (check_rows v b) \<or> truthy (check_cols v b) \<or> truthy (check_diag v b) \<or> check_tie v b"

text \<open>
  \<^verbatim>\<open>Node(parent, board, turn)\<close>. The stored turn is the opposite of the argument:
  \<^verbatim>\<open>3 - turn\<close> in the AMAF file, \<^verbatim>\<open>2 if turn == 1 else 1\<close> in the RAVE file.
\<close>

definition Node_init :: "variant \<Rightarrow> state \<Rightarrow> nat option \<Rightarrow> nat \<Rightarrow> int \<Rightarrow> nat \<times> state" where
  "Node_init v st parent b turn =
     (length (nodes st),
      st\<lparr>nodes := nodes st @
        [\<lparr>node_q = 0, node_n = 0, rave_q = 0, rave_n = 0, node_parent = parent, node_board = b,
          node_turn = (case v of AMAF \<Rightarrow> 3 - turn | RAVE \<Rightarrow> if turn = 1 then 2 else 1),
          node_children = [], node_terminal = check_terminal v (arrays st ! b),
          node_expanded = False\<rparr>]\<rparr>)"

text \<open>
  \<^verbatim>\<open>Node.add_child\<close>. The outer loop runs over the columns \<open>i\<close>; in a column whose top cell
  is empty the inner loop stops at the first empty row \<open>j\<close>, copies the board, writes the
  mark into the copy and either appends a new child and returns, or (the copy equals the
  board of an existing child) breaks to the next column. When the columns are used up
  the node is marked expanded. The AMAF file writes \<^verbatim>\<open>self.turn\<close> and builds
  \<^verbatim>\<open>Node(self, tmp, self.turn)\<close>; the RAVE file writes 2 and builds \<^verbatim>\<open>Node(self, tmp, 1)\<close>
  when \<^verbatim>\<open>self.turn == 1\<close>, and writes 1 and builds \<^verbatim>\<open>Node(self, tmp, 2)\<close> otherwise.
\<close>

definition child_mark :: "variant \<Rightarrow> int \<Rightarrow> int" where
  "child_mark v turn = (case v of AMAF \<Rightarrow> turn | RAVE \<Rightarrow> if turn = 1 then 2 else 1)"

definition child_turn_arg :: "variant \<Rightarrow> int \<Rightarrow> int" where
  "child_turn_arg v turn = (case v of AMAF \<Rightarrow> turn | RAVE \<Rightarrow> if turn = 1 then 1 else 2)"

text \<open>
  \<^verbatim>\<open>any((tmp == child.board).all() for child in self.children)\<close>, and \<^verbatim>\<open>compare_children\<close>
  over the list of the children's boards in the RAVE file (which appends without the
  comparison when that list is empty).
\<close>

definition board_among :: "state \<Rightarrow> nat \<Rightarrow> nat list \<Rightarrow> bool" where
  "board_among st tmp cs = list_ex (\<lambda>c. arrays st ! tmp = board_of st c) cs"

definition append_child :: "variant \<Rightarrow> state \<Rightarrow> nat \<Rightarrow> nat \<Rightarrow> state" where
  "append_child v st k tmp =
     (let (c, st1) = Node_init v st (Some k) tmp (child_turn_arg v (node_turn (nodes st ! k)))
      in st1\<lparr>nodes := (nodes st1)[k := (nodes st1 ! k)\<lparr>node_children := node_children (nodes st1 ! k) @ [c]\<rparr>]\<rparr>)"

fun add_child_cols :: "variant \<Rightarrow> state \<Rightarrow> nat \<Rightarrow> nat list \<Rightarrow> state" where
  "add_child_cols v st k [] = st\<lparr>nodes := (nodes st)[k := (nodes st ! k)\<lparr>node_expanded := True\<rparr>]\<rparr>"
| "add_child_cols v st k (i # rest) =
     (if cell (board_of st k) 5 i = 0 then
        (case find (\<lambda>j. cell (board_of st k) j i = 0) [0..<6] of
           None \<Rightarrow> add_child_cols v st k rest
         | Some j \<Rightarrow>
             (let (tmp, st1) = copy_array st (node_board (nodes st ! k));
                  st2 = write_cell st1 tmp j i (child_mark v (node_turn (nodes st ! k)))
              in if \<not> board_among st2 tmp (node_children (nodes st2 ! k))
                 then append_child v st2 k tmp
                 else add_child_cols v st2 k rest))
      else add_child_cols v st k rest)"

definition add_child :: "variant \<Rightarrow> state \<Rightarrow> nat \<Rightarrow> state" where
  "add_child v st k = (if node_expanded (nodes st ! k) then st else add_child_cols v st k [0..<7])"

section \<open>The search (classes AMAF and RAVE)\<close>

subsection \<open>Selection\<close>

text \<open>
  \<^verbatim>\<open>fully_expanded\<close>: the number of children equals the number of zeros in the top row,
  and every child has been visited.
\<close>

definition fully_expanded :: "state \<Rightarrow> nat \<Rightarrow> bool" where
  "fully_expanded st k =
     (if length (node_children (nodes st ! k)) = count_list (board_of st k ! 5) 0
      then list_all (\<lambda>c. node_n (nodes st ! c) > 0) (node_children (nodes st ! k))
      else False)"

definition pick_unvisited :: "state \<Rightarrow> nat list \<Rightarrow> nat option" where
  "pick_unvisited st cs = find (\<lambda>c. node_n (nodes st ! c) = 0) cs"

text \<open>\<^verbatim>\<open>get_action\<close>: the first cell, rows outermost, in which the two boards differ.\<close>

definition get_action :: "board \<Rightarrow> board \<Rightarrow> action option" where
  "get_action pb cb =
     find (\<lambda>(j, i). cell pb j i \<noteq> cell cb j i) [(j, i). j \<leftarrow> [0..<6], i \<leftarrow> [0..<7]]"

text \<open>
  Scores are floating-point numbers. They are modelled as real numbers (rounding is not
  modelled), with \<open>None\<close> for NaN. \<^verbatim>\<open>child.q / child.n\<close> divides two Python integers and
  raises ZeroDivisionError when \<^verbatim>\<open>child.n\<close> is 0. \<^verbatim>\<open>np.log(0)\<close> is minus infinity, whose
  quotient and square root are NaN, and NaN stays NaN through the remaining sums and
  products.
\<close>

definition uct :: "node \<Rightarrow> node \<Rightarrow> py_error + real option" where
  "uct nd child =
     (if node_n child = 0 then Inl ZeroDivisionError
      else if node_n nd = 0 then Inr None
      else Inr (Some (real (node_q child) / real (node_n child)
                      + 2 * sqrt (ln (real (node_n nd)) / real (node_n child)))))"

text \<open>
  \<^verbatim>\<open>get_amaf_value\<close> reads \<^verbatim>\<open>child.parent.board\<close>, which raises AttributeError for a
  child without parent.
\<close>

definition get_amaf_value :: "state \<Rightarrow> nat \<Rightarrow> py_error + real" where
  "get_amaf_value st c =
     (case node_parent (nodes st ! c) of
        None \<Rightarrow> Inl AttributeError
      | Some p \<Rightarrow>
          (case get_action (board_of st p) (board_of st c) of
             None \<Rightarrow> Inr 0
           | Some a \<Rightarrow>
               (case map_of (amaf_stats st) a of
                  None \<Rightarrow> Inr 0
                | Some (q', n') \<Rightarrow> Inr (if n' > 0 then real q' / real n' else 0))))"

text \<open>
  The combined value of a child: \<^verbatim>\<open>uct + amaf_value\<close> in \<^verbatim>\<open>select_amaf\<close>;
  \<^verbatim>\<open>(1 - beta) * uct + beta * rave_value\<close> in \<^verbatim>\<open>select_uct\<close> of the RAVE file, where
  \<^verbatim>\<open>beta = np.sqrt(self.t / (3 * node.n + self.t))\<close> (a Python division, which raises
  when the divisor is 0; the square root of a negative number is NaN).
\<close>

definition combined_value :: "variant \<Rightarrow> real \<Rightarrow> state \<Rightarrow> nat \<Rightarrow> nat \<Rightarrow> py_error + real option" where
  "combined_value v t st k c =
     (case uct (nodes st ! k) (nodes st ! c) of
        Inl e \<Rightarrow> Inl e
      | Inr u \<Rightarrow>
          (case v of
             AMAF \<Rightarrow>
               (case get_amaf_value st c of
                  Inl e \<Rightarrow> Inl e
                | Inr a \<Rightarrow> Inr (map_option (\<lambda>x. x + a) u))
           | RAVE \<Rightarrow>
               if 3 * real (node_n (nodes st ! k)) + t = 0 then Inl ZeroDivisionError
               else if t / (3 * real (node_n (nodes st ! k)) + t) < 0 then Inr None
               else
                 (let beta = sqrt (t / (3 * real (node_n (nodes st ! k)) + t));
                      rave_value = (if rave_n (nodes st ! c) > 0
                                    then real (rave_q (nodes st ! c)) / real (rave_n (nodes st ! c))
                                    else 0)
                  in Inr (map_option (\<lambda>x. (1 - beta) * x + beta * rave_value) u))))"

text \<open>
  The loop of \<^verbatim>\<open>select_amaf\<close> / \<^verbatim>\<open>select_uct\<close>. \<open>best\<close> is \<open>None\<close> while \<^verbatim>\<open>best_value\<close> is
  minus infinity and \<^verbatim>\<open>best_node\<close> is \<^verbatim>\<open>None\<close>; a comparison with NaN is false.
\<close>

fun select_loop :: "variant \<Rightarrow> real \<Rightarrow> state \<Rightarrow> nat \<Rightarrow> nat list \<Rightarrow> (real \<times> nat) option
                    \<Rightarrow> py_error + (real \<times> nat) option" where
  "select_loop v t st k [] best = Inr best"
| "select_loop v t st k (c # cs) best =
     (case combined_value v t st k c of
        Inl e \<Rightarrow> Inl e
      | Inr None \<Rightarrow> select_loop v t st k cs best
      | Inr (Some x) \<Rightarrow>
          (case best of
             None \<Rightarrow> select_loop v t st k cs (Some (x, c))
           | Some (bv, bn) \<Rightarrow>
               if x > bv then select_loop v t st k cs (Some (x, c))
               else select_loop v t st k cs best))"

definition select_best :: "variant \<Rightarrow> real \<Rightarrow> state \<Rightarrow> nat \<Rightarrow> py_error + nat" where
  "select_best v t st k =
     (case select_loop v t st k (node_children (nodes st ! k)) None of
        Inl e \<Rightarrow> Inl e
      | Inr None \<Rightarrow> Inr k
      | Inr (Some (bv, bn)) \<Rightarrow> Inr bn)"

text \<open>
  The \<^verbatim>\<open>while\<close> loop of \<^verbatim>\<open>select\<close>. It follows references between nodes, so nothing in the
  definition bounds it: the result is \<open>None\<close> when the loop does not end.
\<close>

partial_function (option) select_walk :: "variant \<Rightarrow> real \<Rightarrow> state \<Rightarrow> nat \<Rightarrow> (py_error + nat) option" where
  "select_walk v t st k =
     (if fully_expanded st k then
        (case select_best v t st k of
           Inl e \<Rightarrow> Some (Inl e)
         | Inr tmp \<Rightarrow> if tmp = k then Some (Inr k) else select_walk v t st tmp)
      else Some (Inr k))"

declare select_walk.simps [code]

definition select :: "variant \<Rightarrow> real \<Rightarrow> state \<Rightarrow> nat \<Rightarrow> (py_error + nat option \<times> state) option" where
  "select v t st k =
     (case select_walk v t st k of
        None \<Rightarrow> None
      | Some (Inl e) \<Rightarrow> Some (Inl e)
      | Some (Inr nd) \<Rightarrow>
          if node_terminal (nodes st ! nd) then Some (Inr (Some nd, st))
          else
            (let st1 = add_child v st nd in
             if node_children (nodes st1 ! nd) \<noteq> []
             then Some (Inr (pick_unvisited st1 (node_children (nodes st1 ! nd)), st1))
             else Some (Inr (Some nd, st1))))"

subsection \<open>Rollout\<close>

text \<open>
  \<^verbatim>\<open>apply_move_to_board\<close> (AMAF file) copies the board and fills the first empty row of
  the column in the copy; \<^verbatim>\<open>get_moves\<close> collects the copies for the columns whose top
  cell is empty. The RAVE file does the same inline, looking for the empty row in the
  original before it copies.
\<close>

definition apply_move_to_board :: "state \<Rightarrow> nat \<Rightarrow> nat \<Rightarrow> int \<Rightarrow> nat \<times> state" where
  "apply_move_to_board st a col turn =
     (let (new_board, st1) = copy_array st a in
      case find (\<lambda>j. cell (arrays st1 ! new_board) j col = 0) [0..<6] of
        None \<Rightarrow> (new_board, st1)
      | Some j \<Rightarrow> (new_board, write_cell st1 new_board j col turn))"

fun get_moves_cols :: "variant \<Rightarrow> state \<Rightarrow> nat \<Rightarrow> int \<Rightarrow> nat list \<Rightarrow> nat list \<times> state" where
  "get_moves_cols v st a turn [] = ([], st)"
| "get_moves_cols v st a turn (i # rest) =
     (if cell (arrays st ! a) 5 i = 0 then
        (case v of
           AMAF \<Rightarrow>
             (let (nb, st1) = apply_move_to_board st a i turn;
                  (ms, st2) = get_moves_cols v st1 a turn rest
              in (nb # ms, st2))
         | RAVE \<Rightarrow>
             (case find (\<lambda>j. cell (arrays st ! a) j i = 0) [0..<6] of
                None \<Rightarrow> get_moves_cols v st a turn rest
              | Some j \<Rightarrow>
                  (let (tmp, st1) = copy_array st a;
                       st2 = write_cell st1 tmp j i turn;
                       (ms, st3) = get_moves_cols v st2 a turn rest
                   in (tmp # ms, st3))))
      else get_moves_cols v st a turn rest)"

definition get_moves :: "variant \<Rightarrow> state \<Rightarrow> nat \<Rightarrow> int \<Rightarrow> nat list \<times> state" where
  "get_moves v st a turn = get_moves_cols v st a turn [0..<7]"

text \<open>\<^verbatim>\<open>result\<close>: the winner found by the three checks, or \<^verbatim>\<open>None\<close>.\<close>

definition result :: "variant \<Rightarrow> board \<Rightarrow> int option" where
  "result v b =
     (case check_rows v b of Some w \<Rightarrow> Some w | None \<Rightarrow>
      (case check_cols v b of Some w \<Rightarrow> Some w | None \<Rightarrow> check_diag v b))"

text \<open>\<^verbatim>\<open>terminal != 0\<close> for a value that is \<^verbatim>\<open>None\<close> or a number: \<^verbatim>\<open>None != 0\<close> is true.\<close>

definition ne_zero :: "int option \<Rightarrow> bool" where
  "ne_zero r = (case r of None \<Rightarrow> True | Some w \<Rightarrow> w \<noteq> 0)"

text \<open>
  The turn switch inside \<^verbatim>\<open>rollout\<close>: \<^verbatim>\<open>3 - turn\<close> in the AMAF file,
  \<^verbatim>\<open>1 if turn == 2 else 2\<close> in the RAVE file.
\<close>

definition rollout_flip :: "variant \<Rightarrow> int \<Rightarrow> int" where
  "rollout_flip v turn = (case v of AMAF \<Rightarrow> 3 - turn | RAVE \<Rightarrow> if turn = 2 then 1 else 2)"

text \<open>
  \<^verbatim>\<open>random.choice(moves)\<close> is the entry of \<open>moves\<close> at a position given by the random
  source; \<open>rnd d\<close> is the number the source yields at its \<open>d\<close>-th call.
\<close>

definition choice :: "(nat \<Rightarrow> nat) \<Rightarrow> state \<Rightarrow> nat list \<Rightarrow> nat \<times> state" where
  "choice rnd st ms = (ms ! (rnd (draws st) mod length ms), st\<lparr>draws := draws st + 1\<rparr>)"

text \<open>One pass through the body of the rollout loop, up to the test \<^verbatim>\<open>terminal != 0\<close>.\<close>

definition rollout_ply :: "variant \<Rightarrow> (nat \<Rightarrow> nat) \<Rightarrow> state \<Rightarrow> nat \<Rightarrow> int \<Rightarrow> action list
                           \<Rightarrow> nat list \<Rightarrow> nat \<times> action list \<times> int option \<times> state" where
  "rollout_ply v rnd st b turn actions moves =
     (let (next_board, st1) = choice rnd st moves;
          actions1 = (case get_action (arrays st1 ! b) (arrays st1 ! next_board) of
                        None \<Rightarrow> actions
                      | Some a \<Rightarrow> actions @ [a])
      in (next_board, actions1, result v (arrays st1 ! next_board), st1))"

text \<open>
  \<^verbatim>\<open>rollout\<close>. \<open>term\<close> is \<^verbatim>\<open>node.terminal\<close>, which the loop tests and never changes; \<open>b\<close>,
  \<open>turn\<close> and \<open>actions\<close> are the loop variables. With \<open>term\<close> true the loop is skipped and
  the code returns \<^verbatim>\<open>self.result(board), actions\<close>, as it does when no move is left.
\<close>

function rollout_loop :: "variant \<Rightarrow> (nat \<Rightarrow> nat) \<Rightarrow> state \<Rightarrow> bool \<Rightarrow> nat \<Rightarrow> int \<Rightarrow> action list
                          \<Rightarrow> (int option \<times> action list) \<times> state" where
  "rollout_loop v rnd st term b turn actions =
     (if term then ((result v (arrays st ! b), actions), st)
      else
        (let turn1 = rollout_flip v turn;
             (moves, st1) = get_moves v st b turn1
         in if moves = [] then ((result v (arrays st1 ! b), actions), st1)
            else
              (let (next_board, actions1, terminal, st2) = rollout_ply v rnd st1 b turn1 actions moves
               in if ne_zero terminal then ((terminal, actions1), st2)
                  else rollout_loop v rnd st2 term next_board turn1 actions1)))"
  by pat_completeness auto

definition rollout :: "variant \<Rightarrow> (nat \<Rightarrow> nat) \<Rightarrow> state \<Rightarrow> nat
                       \<Rightarrow> (int option \<times> action list) \<times> state" where
  "rollout v rnd st k =
     rollout_loop v rnd st (node_terminal (nodes st ! k)) (node_board (nodes st ! k))
       (node_turn (nodes st ! k)) []"

subsection \<open>Backpropagation\<close>

text \<open>
  \<^verbatim>\<open>node.turn == winner\<close>, where \<^verbatim>\<open>winner\<close> is a number or \<^verbatim>\<open>None\<close>.
\<close>

definition is_winner :: "int \<Rightarrow> int option \<Rightarrow> bool" where
  "is_winner turn winner \<longleftrightarrow> winner = Some turn"

text \<open>The loop over \<^verbatim>\<open>actions\<close> of the AMAF file, on the dictionary \<^verbatim>\<open>amaf_stats\<close>.\<close>

fun amaf_update :: "bool \<Rightarrow> action list \<Rightarrow> (action \<times> (nat \<times> nat)) list \<Rightarrow> (action \<times> (nat \<times> nat)) list" where
  "amaf_update won [] stats = stats"
| "amaf_update won (a # rest) stats =
     (let (q', n') = (case map_of stats a of None \<Rightarrow> (0, 0) | Some p \<Rightarrow> p)
      in amaf_update won rest (AList.update a (q' + (if won then 1 else 0), n' + 1) stats))"

text \<open>
  The loops over \<^verbatim>\<open>actions\<close> and \<^verbatim>\<open>node.children\<close> of the RAVE file: a child whose board
  differs from the node's board in the cell of the action gets its RAVE counters raised.
\<close>

fun rave_children :: "bool \<Rightarrow> nat \<Rightarrow> action \<Rightarrow> nat list \<Rightarrow> state \<Rightarrow> state" where
  "rave_children won k a [] st = st"
| "rave_children won k a (c # cs) st =
     rave_children won k a cs
       (if cell (board_of st c) (fst a) (snd a) \<noteq> cell (board_of st k) (fst a) (snd a)
        then st\<lparr>nodes := (nodes st)[c := (nodes st ! c)
               \<lparr>rave_q := rave_q (nodes st ! c) + (if won then 1 else 0),
                rave_n := rave_n (nodes st ! c) + 1\<rparr>]\<rparr>
        else st)"

fun rave_update :: "bool \<Rightarrow> nat \<Rightarrow> action list \<Rightarrow> state \<Rightarrow> state" where
  "rave_update won k [] st = st"
| "rave_update won k (a # rest) st =
     rave_update won k rest (rave_children won k a (node_children (nodes st ! k)) st)"

text \<open>The body of \<^verbatim>\<open>backpropagate\<close> at one node, before the recursive call.\<close>

definition backprop_node :: "variant \<Rightarrow> state \<Rightarrow> nat \<Rightarrow> int option \<Rightarrow> action list \<Rightarrow> state" where
  "backprop_node v st k winner actions =
     (let won = is_winner (node_turn (nodes st ! k)) winner;
          st1 = st\<lparr>nodes := (nodes st)[k := (nodes st ! k)
                  \<lparr>node_q := node_q (nodes st ! k) + (if won then 1 else 0),
                   node_n := node_n (nodes st ! k) + 1\<rparr>]\<rparr>
      in case v of
           AMAF \<Rightarrow> st1\<lparr>amaf_stats := amaf_update won actions (amaf_stats st1)\<rparr>
         | RAVE \<Rightarrow> rave_update won k actions st1)"

text \<open>
  \<^verbatim>\<open>backpropagate\<close> calls itself on \<^verbatim>\<open>node.parent\<close> until that is \<^verbatim>\<open>None\<close>. It follows
  references, so the result is \<open>None\<close> when the recursion does not end.
\<close>

partial_function (option) backpropagate :: "variant \<Rightarrow> state \<Rightarrow> nat \<Rightarrow> int option \<Rightarrow> action list \<Rightarrow> state option" where
  "backpropagate v st k winner actions =
     (let st1 = backprop_node v st k winner actions
      in case node_parent (nodes st1 ! k) of
           None \<Rightarrow> Some st1
         | Some p \<Rightarrow> backpropagate v st1 p winner actions)"

declare backpropagate.simps [code]

subsection \<open>The move driver\<close>

text \<open>
  \<^verbatim>\<open>best_child\<close>. The AMAF file takes \<^verbatim>\<open>max(node.children, key=lambda child: child.n,
  default=None)\<close>, which keeps the first of several maximal children. The RAVE file runs
  a loop that starts from \<^verbatim>\<open>max_visit = 0\<close> and \<^verbatim>\<open>best_node = None\<close> and replaces both when
  \<^verbatim>\<open>child.n > max_visit\<close>.
\<close>

fun max_first :: "state \<Rightarrow> nat \<Rightarrow> nat list \<Rightarrow> nat" where
  "max_first st best [] = best"
| "max_first st best (c # cs) =
     max_first st (if node_n (nodes st ! c) > node_n (nodes st ! best) then c else best) cs"

fun best_loop :: "state \<Rightarrow> nat \<Rightarrow> nat option \<Rightarrow> nat list \<Rightarrow> nat option" where
  "best_loop st max_visit best_node [] = best_node"
| "best_loop st max_visit best_node (c # cs) =
     (if node_n (nodes st ! c) > max_visit
      then best_loop st (node_n (nodes st ! c)) (Some c) cs
      else best_loop st max_visit best_node cs)"

definition best_child :: "variant \<Rightarrow> state \<Rightarrow> nat \<Rightarrow> nat option" where
  "best_child v st k =
     (case v of
        AMAF \<Rightarrow> (case node_children (nodes st ! k) of [] \<Rightarrow> None | c # cs \<Rightarrow> Some (max_first st c cs))
      | RAVE \<Rightarrow> best_loop st 0 None (node_children (nodes st ! k)))"

text \<open>
  The \<^verbatim>\<open>while\<close> loop of \<^verbatim>\<open>compute_move\<close> runs until the time budget is used up. Here
  the budget is a number of iterations. The loop ends in one of two ways: the budget is
  used up (\<open>Finished\<close>), or \<^verbatim>\<open>select\<close> returned \<^verbatim>\<open>None\<close> and \<^verbatim>\<open>compute_move\<close> returns
  \<^verbatim>\<open>(-1, -1)\<close> at once (\<open>No_leaf\<close>).
\<close>

datatype loop_end = Finished state | No_leaf state

fun iterate :: "variant \<Rightarrow> real \<Rightarrow> (nat \<Rightarrow> nat) \<Rightarrow> nat \<Rightarrow> nat \<Rightarrow> state \<Rightarrow> (py_error + loop_end) option" where
  "iterate v t rnd rt 0 st = Some (Inr (Finished st))"
| "iterate v t rnd rt (Suc budget) st =
     (case select v t st rt of
        None \<Rightarrow> None
      | Some (Inl e) \<Rightarrow> Some (Inl e)
      | Some (Inr (None, st1)) \<Rightarrow> Some (Inr (No_leaf st1))
      | Some (Inr (Some leaf, st1)) \<Rightarrow>
          (let ((simulation_result, actions), st2) = rollout v rnd st1 leaf
           in case backpropagate v st2 leaf simulation_result actions of
                None \<Rightarrow> None
              | Some st3 \<Rightarrow> iterate v t rnd rt budget st3))"

text \<open>The part of \<^verbatim>\<open>compute_move\<close> after the loop.\<close>

definition extract_move :: "variant \<Rightarrow> state \<Rightarrow> nat \<Rightarrow> int \<times> int" where
  "extract_move v st rt =
     (case best_child v st rt of
        None \<Rightarrow> (-1, -1)
      | Some selected \<Rightarrow>
          (case find (\<lambda>(j, i). cell (board_of st selected) j i \<noteq> cell (board_of st rt) j i)
                  [(j, i). j \<leftarrow> [0..<6], i \<leftarrow> [0..<7]] of
             Some (j, i) \<Rightarrow> (int j, int i)
           | None \<Rightarrow> (-1, -1)))"

definition compute_move :: "variant \<Rightarrow> real \<Rightarrow> (nat \<Rightarrow> nat) \<Rightarrow> nat \<Rightarrow> state \<Rightarrow> nat
                            \<Rightarrow> (py_error + (int \<times> int) \<times> state) option" where
  "compute_move v t rnd budget st rt =
     (case iterate v t rnd rt budget st of
        None \<Rightarrow> None
      | Some (Inl e) \<Rightarrow> Some (Inl e)
      | Some (Inr (No_leaf st1)) \<Rightarrow> Some (Inr ((-1, -1), st1))
      | Some (Inr (Finished st1)) \<Rightarrow> Some (Inr (extract_move v st1 rt, st1)))"

text \<open>
  The caller (\<^verbatim>\<open>main_AMAF.py\<close>) builds the root as \<^verbatim>\<open>Node(parent=None, board=..., turn=...)\<close>
  over the game's board: a store with that one array and that one node.
\<close>

definition init_state :: "variant \<Rightarrow> board \<Rightarrow> int \<Rightarrow> state" where
  "init_state v b turn =
     snd (Node_init v \<lparr>arrays = [b], nodes = [], amaf_stats = [], draws = 0\<rparr> None 0 turn)"

section \<open>Notions used to state the properties of the search\<close>

text \<open>
  None of these is code of the repository. \<open>heap_ok\<close>: every node's board is an array
  that exists. \<open>kids_ok\<close>: node \<open>k\<close> and its children exist.
\<close>

definition heap_ok :: "state \<Rightarrow> bool" where
  "heap_ok st \<longleftrightarrow> list_all (\<lambda>nd. node_board nd < length (arrays st)) (nodes st)"

definition kids_ok :: "state \<Rightarrow> nat \<Rightarrow> bool" where
  "kids_ok st k \<longleftrightarrow> k < length (nodes st) \<and> list_all (\<lambda>c. c < length (nodes st)) (node_children (nodes st ! k))"

text \<open>
  The board after a drop of node \<open>k\<close>'s mark into row \<open>j\<close> of column \<open>i\<close>, and the set of
  the boards that \<^verbatim>\<open>add_child\<close> can produce at node \<open>k\<close>: the drops into the lowest empty
  cell of a column whose top cell is empty.
\<close>

definition drop_board :: "variant \<Rightarrow> state \<Rightarrow> nat \<Rightarrow> nat \<Rightarrow> nat \<Rightarrow> board" where
  "drop_board v st k j i = set_cell (board_of st k) j i (child_mark v (node_turn (nodes st ! k)))"

definition legal_drops :: "variant \<Rightarrow> state \<Rightarrow> nat \<Rightarrow> board set" where
  "legal_drops v st k =
     {drop_board v st k j i | j i. i < 7 \<and> cell (board_of st k) 5 i = 0 \<and> lowest_empty (board_of st k) i j}"

text \<open>Two boards differ in exactly one cell of the grid.\<close>

definition one_cell_apart :: "board \<Rightarrow> board \<Rightarrow> bool" where
  "one_cell_apart pb cb \<longleftrightarrow>
     (\<exists>j<6. \<exists>i<7. cell cb j i \<noteq> cell pb j i
        \<and> (\<forall>j'<6. \<forall>i'<7. (j', i') \<noteq> (j, i) \<longrightarrow> cell cb j' i' = cell pb j' i'))"

text \<open>
  \<open>same_tables\<close>: every array that existed is still there with its content, and the
  dictionary and the random source are untouched. \<open>appended\<close> and \<open>exhausted\<close> describe
  the two ways \<^verbatim>\<open>add_child\<close> can end: with a new child for the drop into row \<open>j\<close> of
  column \<open>i\<close>, or with the node marked expanded.
\<close>

definition same_tables :: "state \<Rightarrow> state \<Rightarrow> bool" where
  "same_tables st st' \<longleftrightarrow> prefix (arrays st) (arrays st') \<and> amaf_stats st' = amaf_stats st \<and> draws st' = draws st"

definition child_node :: "variant \<Rightarrow> nat \<Rightarrow> int \<Rightarrow> nat \<Rightarrow> board \<Rightarrow> node" where
  "child_node v k turn a nb =
     \<lparr>node_q = 0, node_n = 0, rave_q = 0, rave_n = 0, node_parent = Some k, node_board = a,
      node_turn = (case v of AMAF \<Rightarrow> 3 - child_turn_arg v turn
                   | RAVE \<Rightarrow> if child_turn_arg v turn = 1 then 2 else 1),
      node_children = [], node_terminal = check_terminal v nb, node_expanded = False\<rparr>"

definition appended :: "variant \<Rightarrow> state \<Rightarrow> nat \<Rightarrow> nat \<Rightarrow> nat \<Rightarrow> state \<Rightarrow> bool" where
  "appended v st k j i st' \<longleftrightarrow>
     length (arrays st) < length (arrays st')
     \<and> last (arrays st') = drop_board v st k j i
     \<and> drop_board v st k j i \<notin> board_of st ` set (node_children (nodes st ! k))
     \<and> nodes st' =
         (nodes st)[k := (nodes st ! k)\<lparr>node_children := node_children (nodes st ! k) @ [length (nodes st)]\<rparr>]
         @ [child_node v k (node_turn (nodes st ! k)) (length (arrays st') - 1) (drop_board v st k j i)]"

definition exhausted :: "variant \<Rightarrow> state \<Rightarrow> nat \<Rightarrow> nat list \<Rightarrow> state \<Rightarrow> bool" where
  "exhausted v st k cols st' \<longleftrightarrow>
     nodes st' = (nodes st)[k := (nodes st ! k)\<lparr>node_expanded := True\<rparr>]
     \<and> (\<forall>i\<in>set cols. \<forall>j. cell (board_of st k) 5 i = 0 \<longrightarrow> lowest_empty (board_of st k) i j \<longrightarrow>
           drop_board v st k j i \<in> board_of st ` set (node_children (nodes st ! k)))"

text \<open>
  Relations between the store before and after an operation, and the invariant of the
  tree. \<open>arrays_grow\<close>: arrays were only added. \<open>same_shape\<close>: only counters changed.
  \<open>anc st k a\<close>: node \<open>a\<close> is \<open>k\<close> or an ancestor of \<open>k\<close>. \<open>parents_ok\<close>: node 0 is the
  root and every other node has a parent allocated before it. \<open>tree_ok X\<close>: in addition,
  children are allocated after their parent and point back to it, no child has more
  visits than its parent, and every child outside \<open>X\<close> has been visited.
\<close>

definition arrays_grow :: "state \<Rightarrow> state \<Rightarrow> bool" where
  "arrays_grow st st' \<longleftrightarrow>
     prefix (arrays st) (arrays st') \<and> nodes st' = nodes st \<and> amaf_stats st' = amaf_stats st"

definition same_shape :: "state \<Rightarrow> state \<Rightarrow> bool" where
  "same_shape st st' \<longleftrightarrow>
     arrays st' = arrays st \<and> draws st' = draws st \<and> length (nodes st') = length (nodes st)
     \<and> (\<forall>i<length (nodes st).
           node_parent (nodes st' ! i) = node_parent (nodes st ! i)
         \<and> node_board (nodes st' ! i) = node_board (nodes st ! i)
         \<and> node_turn (nodes st' ! i) = node_turn (nodes st ! i)
         \<and> node_children (nodes st' ! i) = node_children (nodes st ! i)
         \<and> node_terminal (nodes st' ! i) = node_terminal (nodes st ! i)
         \<and> node_expanded (nodes st' ! i) = node_expanded (nodes st ! i))"

definition visits_kept :: "state \<Rightarrow> state \<Rightarrow> bool" where
  "visits_kept st st' \<longleftrightarrow>
     same_shape st st' \<and> (\<forall>i<length (nodes st). node_n (nodes st' ! i) = node_n (nodes st ! i))"

inductive anc :: "state \<Rightarrow> nat \<Rightarrow> nat \<Rightarrow> bool" for st where
  anc_self: "anc st k k"
| anc_up: "k < length (nodes st) \<Longrightarrow> node_parent (nodes st ! k) = Some p \<Longrightarrow> anc st p a \<Longrightarrow> anc st k a"

definition parents_ok :: "state \<Rightarrow> bool" where
  "parents_ok st \<longleftrightarrow>
     nodes st \<noteq> [] \<and> node_parent (nodes st ! 0) = None
     \<and> (\<forall>k<length (nodes st). 0 < k \<longrightarrow> (\<exists>p<k. node_parent (nodes st ! k) = Some p))"

definition tree_ok :: "nat set \<Rightarrow> state \<Rightarrow> bool" where
  "tree_ok X st \<longleftrightarrow>
     parents_ok st \<and> heap_ok st
     \<and> (\<forall>k<length (nodes st). \<forall>c\<in>set (node_children (nodes st ! k)).
           k < c \<and> c < length (nodes st) \<and> node_parent (nodes st ! c) = Some k
           \<and> node_n (nodes st ! c) \<le> node_n (nodes st ! k)
           \<and> (c \<notin> X \<longrightarrow> 0 < node_n (nodes st ! c)))"

definition kids_step :: "variant \<Rightarrow> state \<Rightarrow> state \<Rightarrow> bool" where
  "kids_step v st st1 \<longleftrightarrow>
     length (nodes st) \<le> length (nodes st1)
     \<and> node_turn (nodes st1 ! 0) = node_turn (nodes st ! 0)
     \<and> node_board (nodes st1 ! 0) = node_board (nodes st ! 0)
     \<and> (\<forall>c<length (nodes st). board_of st1 c = board_of st c)
     \<and> (node_children (nodes st1 ! 0) = node_children (nodes st ! 0)
        \<or> (\<exists>j i. i < 7 \<and> lowest_empty (board_of st 0) i j
              \<and> node_children (nodes st1 ! 0) = node_children (nodes st ! 0) @ [length (nodes st)]
              \<and> board_of st1 (length (nodes st)) = drop_board v st 0 j i))"

definition state_of :: "loop_end \<Rightarrow> state" where
  "state_of e = (case e of Finished st \<Rightarrow> st | No_leaf st \<Rightarrow> st)"

text \<open>The loop of \<^verbatim>\<open>compute_move\<close> ran through its whole budget.\<close>

definition finished :: "(py_error + loop_end) option \<Rightarrow> bool" where
  "finished r = (case r of Some (Inr (Finished st)) \<Rightarrow> True | _ \<Rightarrow> False)"

text \<open>\<^verbatim>\<open>compute_move\<close> returned a value (it neither raised nor ran forever).\<close>

definition returned :: "(py_error + (int \<times> int) \<times> state) option \<Rightarrow> bool" where
  "returned r = (case r of Some (Inr x) \<Rightarrow> True | _ \<Rightarrow> False)"

text \<open>
  The root's board is \<open>b\<close>, its stored turn is \<open>turn\<close>, and every child of the root has a
  board one cell apart from \<open>b\<close>.
\<close>

definition kids_apart :: "board \<Rightarrow> int \<Rightarrow> state \<Rightarrow> bool" where
  "kids_apart b turn st \<longleftrightarrow>
     board_of st 0 = b \<and> node_turn (nodes st ! 0) = turn
     \<and> (\<forall>c\<in>set (node_children (nodes st ! 0)). one_cell_apart b (board_of st c))"

text \<open>
  \<open>kids_legal v st k\<close>: node \<open>k\<close> has a 6 by 7 board and a stored turn 1 or 2, its children
  have pairwise different boards, each of them a legal drop at \<open>k\<close>, and if \<open>k\<close> is marked
  expanded then every legal drop at \<open>k\<close> is the board of a child. \<open>drops_ok\<close>: this holds at
  every node of the tree.
\<close>

definition kids_legal :: "variant \<Rightarrow> state \<Rightarrow> nat \<Rightarrow> bool" where
  "kids_legal v st k \<longleftrightarrow>
     shape_ok (board_of st k) \<and> (node_turn (nodes st ! k) = 1 \<or> node_turn (nodes st ! k) = 2)
     \<and> distinct (map (board_of st) (node_children (nodes st ! k)))
     \<and> board_of st ` set (node_children (nodes st ! k)) \<subseteq> legal_drops v st k
     \<and> (node_expanded (nodes st ! k) \<longrightarrow>
          legal_drops v st k \<subseteq> board_of st ` set (node_children (nodes st ! k)))"

definition drops_ok :: "variant \<Rightarrow> state \<Rightarrow> bool" where
  "drops_ok v st \<longleftrightarrow> (\<forall>k<length (nodes st). kids_legal v st k)"

subsection \<open>Example boards\<close>

definition col0_full :: board where
  "col0_full = [[1,0,0,0,0,0,0],[2,0,0,0,0,0,0],[1,0,0,0,0,0,0],[2,0,0,0,0,0,0],[1,0,0,0,0,0,0],[2,0,0,0,0,0,0]]"

definition tie_board :: board where
  "tie_board = [[1,1,2,2,1,1,2],[2,2,1,1,2,2,1],[1,1,2,2,1,1,2],[2,2,1,1,2,2,1],[1,1,2,2,1,1,2],[2,2,1,1,2,2,1]]"

definition full_win_board :: board where
  "full_win_board = [[1,1,2,2,1,1,2],[2,2,1,1,2,2,1],[1,1,2,2,1,1,2],[2,2,1,1,2,2,1],[1,1,2,2,1,1,2],[2,2,2,2,1,1,1]]"

text \<open>
  The tree after the first expansion of a root over the empty board, built as
  \<^verbatim>\<open>main_AMAF.py\<close> builds it (\<^verbatim>\<open>turn = 1\<close>, the engine's symbol), in both engines.
\<close>

definition one_child :: state where
  "one_child = add_child AMAF (init_state AMAF zeros 1) 0"

definition one_child_rave :: state where
  "one_child_rave = add_child RAVE (init_state RAVE zeros 1) 0"

section \<open>Properties of the rules engine\<close>

subsection \<open>Applying a move\<close>

lemma apply_move_rows_find:
  "apply_move_rows v g c rows =
     (case find (\<lambda>i. cell (gb_board g) i c = 0) rows of
        None \<Rightarrow> (False, g)
      | Some j \<Rightarrow> (True, switch_turn v (g\<lparr>gb_board := set_cell (gb_board g) j c (gb_turn g)\<rparr>)))"
  by (induction rows) auto

lemma find_upt_lowest:
  "find (\<lambda>i. cell b i c = 0) [0..<6] = Some j \<longleftrightarrow> lowest_empty b c j"
  by (auto simp: find_Some_iff lowest_empty_def)

lemma find_upt_none:
  "find (\<lambda>i. cell b i c = 0) [0..<6] = None \<longleftrightarrow> (\<forall>j<6. cell b j c \<noteq> 0)"
  by (auto simp: find_None_iff)

lemma stackedD: "stacked b \<Longrightarrow> i < 7 \<Longrightarrow> j < 5 \<Longrightarrow> cell b j i = 0 \<Longrightarrow> cell b (Suc j) i = 0"
  by (auto simp: stacked_def list_all_iff)

lemma stacked_top:
  assumes "stacked b" "i < 7" "cell b 5 i \<noteq> 0" "j < 6"
  shows "cell b j i \<noteq> 0"
proof -
  have 4: "cell b 4 i \<noteq> 0" using stackedD[OF assms(1,2), of 4] assms(3) by (auto simp: eval_nat_numeral)
  have 3: "cell b 3 i \<noteq> 0" using stackedD[OF assms(1,2), of 3] 4 by (auto simp: eval_nat_numeral)
  have 2: "cell b 2 i \<noteq> 0" using stackedD[OF assms(1,2), of 2] 3 by (auto simp: eval_nat_numeral)
  have 1: "cell b 1 i \<noteq> 0" using stackedD[OF assms(1,2), of 1] 2 by (auto simp: eval_nat_numeral)
  have 0: "cell b 0 i \<noteq> 0" using stackedD[OF assms(1,2), of 0] 1 by (auto simp: eval_nat_numeral)
  have "j = 0 \<or> j = 1 \<or> j = 2 \<or> j = 3 \<or> j = 4 \<or> j = 5" using assms(4) by arith
  then show ?thesis using 0 1 2 3 4 assms(3) by auto
qed

lemma cell_set_cell:
  "shape_ok b \<Longrightarrow> j < 6 \<Longrightarrow> i < 7 \<Longrightarrow>
   cell (set_cell b j i v) j' i' = (if j' = j \<and> i' = i then v else cell b j' i')"
  by (auto simp: cell_def set_cell_def shape_ok_def list_all_iff nth_list_update)

text \<open>
  The gravity invariant is where every game starts and every accepted move
  keeps it, so the boards that \<open>apply_move\<close> meets in play all satisfy it.
\<close>

lemma stacked_iff: "stacked b \<longleftrightarrow> (\<forall>i<7. \<forall>j<5. cell b j i = 0 \<longrightarrow> cell b (Suc j) i = 0)"
  by (auto simp: stacked_def list_all_iff)

lemma stacked_zeros: "shape_ok zeros \<and> stacked zeros"
  by code_simp

lemma stacked_drop:
  assumes "shape_ok b" "stacked b" "lowest_empty b i j" "i < 7" "m \<noteq> 0"
  shows "stacked (set_cell b j i m)" "shape_ok (set_cell b j i m)"
proof -
  have j: "j < 6" "cell b j i = 0" "\<forall>j'<j. cell b j' i \<noteq> 0" using assms(3) by (simp_all add: lowest_empty_def)
  note c = cell_set_cell[OF assms(1) j(1) assms(4)]
  show "stacked (set_cell b j i m)"
    unfolding stacked_iff
  proof (intro allI impI)
    fix i' j' assume h: "i' < 7" "j' < 5" "cell (set_cell b j i m) j' i' = 0"
    have nz: "\<not> (j' = j \<and> i' = i)" using h(3) assms(5) by (auto simp: c)
    then have z: "cell b j' i' = 0" using h(3) by (auto simp: c split: if_splits)
    have up: "cell b (Suc j') i' = 0" using assms(2) h(1,2) z by (simp add: stacked_iff)
    have "\<not> (Suc j' = j \<and> i' = i)"
    proof
      assume e: "Suc j' = j \<and> i' = i"
      then have "j' < j" by simp
      then have "cell b j' i \<noteq> 0" using j(3) by simp
      then show False using z e by simp
    qed
    then show "cell (set_cell b j i m) (Suc j') i' = 0" using up by (auto simp: c)
  qed
  show "shape_ok (set_cell b j i m)"
    using assms(1) j(1) by (auto simp: shape_ok_def set_cell_def list_all_length nth_list_update)
qed

lemma apply_move_keeps_gravity:
  assumes "shape_ok (gb_board g)" "stacked (gb_board g)" "1 \<le> col" "col \<le> 7"
    and "gb_turn g = 1 \<or> gb_turn g = 2" and "apply_move v g col = Inr (ok, g')"
  shows "shape_ok (gb_board g') \<and> stacked (gb_board g') \<and> (gb_turn g' = 1 \<or> gb_turn g' = 2)"
proof -
  let ?c = "nat (col - 1)"
  have c: "?c < 7" using assms(3,4) by simp
  have idx: "np_index 7 (col - 1) = Inr ?c" using assms(3,4) by (simp add: np_index_def)
  have am: "(ok, g') = apply_move_rows v g ?c [0..<6]"
    using assms(6) by (simp add: apply_move_def idx)
  show ?thesis
  proof (cases "find (\<lambda>i. cell (gb_board g) i ?c = 0) [0..<6]")
    case None
    then have "g' = g" using am by (simp add: apply_move_rows_find)
    then show ?thesis using assms(1,2,5) by simp
  next
    case (Some j)
    then have low: "lowest_empty (gb_board g) ?c j" by (simp only: find_upt_lowest)
    have g': "g' = switch_turn v (g\<lparr>gb_board := set_cell (gb_board g) j ?c (gb_turn g)\<rparr>)"
      using am Some by (simp add: apply_move_rows_find)
    have nz: "gb_turn g \<noteq> 0" using assms(5) by auto
    have b': "gb_board g' = set_cell (gb_board g) j ?c (gb_turn g)"
      and t': "gb_turn g' = 1 \<or> gb_turn g' = 2"
      unfolding g' using assms(5) by (cases v; auto simp: switch_turn_def)+
    show ?thesis unfolding b' using stacked_drop[OF assms(1,2) low c nz] t' by simp
  qed
qed

text \<open>
  Claim C3. On a board that obeys gravity, \<^verbatim>\<open>apply_move\<close> on a column (numbered from 1)
  whose top cell is not empty returns \<^verbatim>\<open>False\<close> and leaves board, turn and every other
  field as they were; on a column whose top cell is empty it writes the mark of the
  player to move into the lowest empty cell of that column, changes no other cell, hands
  the turn to the other player and returns \<^verbatim>\<open>True\<close>.
\<close>

theorem apply_move_full_or_room:
  assumes "shape_ok (gb_board g)" and "stacked (gb_board g)"
    and "1 \<le> col" and "col \<le> 7" and "gb_turn g = 1 \<or> gb_turn g = 2"
  shows "(cell (gb_board g) 5 (nat (col - 1)) \<noteq> 0 \<longrightarrow> apply_move v g col = Inr (False, g))
       \<and> (cell (gb_board g) 5 (nat (col - 1)) = 0 \<longrightarrow>
            (\<exists>j g'. lowest_empty (gb_board g) (nat (col - 1)) j
               \<and> apply_move v g col = Inr (True, g')
               \<and> gb_turn g' = 3 - gb_turn g \<and> gb_cpu g' = gb_cpu g
               \<and> (\<forall>j' i'. j' < 6 \<longrightarrow> i' < 7 \<longrightarrow> cell (gb_board g') j' i' =
                     (if j' = j \<and> i' = nat (col - 1) then gb_turn g else cell (gb_board g) j' i'))))"
proof -
  let ?c = "nat (col - 1)"
  let ?b = "gb_board g"
  have c: "?c < 7" using assms(3,4) by simp
  have idx: "np_index 7 (col - 1) = Inr ?c" using assms(3,4) by (simp add: np_index_def)
  have am: "apply_move v g col = Inr (apply_move_rows v g ?c [0..<6])"
    by (simp add: apply_move_def idx)
  have full: "apply_move v g col = Inr (False, g)" if "cell ?b 5 ?c \<noteq> 0"
  proof -
    have "find (\<lambda>i. cell ?b i ?c = 0) [0..<6] = None"
      unfolding find_upt_none using stacked_top[OF assms(2) c that] by blast
    then show ?thesis unfolding am apply_move_rows_find by simp
  qed
  have room: "\<exists>j g'. lowest_empty ?b ?c j \<and> apply_move v g col = Inr (True, g')
               \<and> gb_turn g' = 3 - gb_turn g \<and> gb_cpu g' = gb_cpu g
               \<and> (\<forall>j' i'. j' < 6 \<longrightarrow> i' < 7 \<longrightarrow> cell (gb_board g') j' i' =
                     (if j' = j \<and> i' = ?c then gb_turn g else cell ?b j' i'))"
    if "cell ?b 5 ?c = 0"
  proof -
    have "find (\<lambda>i. cell ?b i ?c = 0) [0..<6] \<noteq> None"
      unfolding find_upt_none using that by (intro notI) (auto dest: spec[of _ 5])
    then obtain j where f: "find (\<lambda>i. cell ?b i ?c = 0) [0..<6] = Some j" by blast
    then have low: "lowest_empty ?b ?c j" by (simp only: find_upt_lowest)
    then have j: "j < 6" by (simp add: lowest_empty_def)
    let ?g' = "switch_turn v (g\<lparr>gb_board := set_cell ?b j ?c (gb_turn g)\<rparr>)"
    have r: "apply_move v g col = Inr (True, ?g')"
      unfolding am apply_move_rows_find f by simp
    have t: "gb_turn ?g' = 3 - gb_turn g" "gb_cpu ?g' = gb_cpu g"
            "gb_board ?g' = set_cell ?b j ?c (gb_turn g)"
      using assms(5) by (cases v; auto simp: switch_turn_def)+
    show ?thesis
      using low r t cell_set_cell[OF assms(1) j c] by (intro exI[of _ j] exI[of _ ?g']) simp
  qed
  show ?thesis using full room by blast
qed

theorem apply_move_full_or_room_witness:
  "shape_ok col0_full \<and> stacked col0_full
   \<and> cell col0_full 5 0 \<noteq> 0 \<and> cell col0_full 5 1 = 0
   \<and> apply_move RAVE \<lparr>gb_turn = 2, gb_board = col0_full, gb_cpu = 1\<rparr> 1
        = Inr (False, \<lparr>gb_turn = 2, gb_board = col0_full, gb_cpu = 1\<rparr>)
   \<and> (\<exists>g'. apply_move RAVE \<lparr>gb_turn = 2, gb_board = col0_full, gb_cpu = 1\<rparr> 2 = Inr (True, g')
         \<and> gb_turn g' = 1 \<and> cell (gb_board g') 0 1 = 2 \<and> cell (gb_board g') 5 0 = 2)"
proof -
  let ?g = "\<lparr>gb_turn = 2, gb_board = col0_full, gb_cpu = 1\<rparr>"
  have s: "shape_ok (gb_board ?g)" by (simp add: shape_ok_def col0_full_def)
  have st: "stacked (gb_board ?g)" by code_simp
  have t: "gb_turn ?g = 1 \<or> gb_turn ?g = 2" by simp
  have c5: "cell col0_full 5 0 \<noteq> 0" "cell col0_full 5 1 = 0" "cell col0_full 0 1 = 0"
    by (simp_all add: col0_full_def cell_def)
  have low: "lowest_empty col0_full 1 j \<longleftrightarrow> j = 0" for j
    using c5 by (auto simp: lowest_empty_def)
  have a: "apply_move RAVE ?g 1 = Inr (False, ?g)"
    using apply_move_full_or_room[OF s st _ _ t, of 1 RAVE] c5 by simp
  have b: "\<exists>g'. apply_move RAVE ?g 2 = Inr (True, g')
         \<and> gb_turn g' = 1 \<and> cell (gb_board g') 0 1 = 2 \<and> cell (gb_board g') 5 0 = 2"
    using apply_move_full_or_room[OF s st _ _ t, of 2 RAVE] c5 low
    by (auto simp: col0_full_def cell_def)
  show ?thesis using s st c5 a b by simp
qed

text \<open>
  Claim C10. \<^verbatim>\<open>apply_move\<close> does not validate its argument: with \<^verbatim>\<open>column = 0\<close> the index
  \<^verbatim>\<open>column - 1 = -1\<close> is NumPy's last column, so the call raises nothing and does exactly
  what \<^verbatim>\<open>column = 7\<close> does: the mark of the player to move goes into the lowest empty
  cell of column index 6 and the turn is switched.
\<close>

theorem apply_move_column_zero:
  "apply_move v g 0 = apply_move v g 7
   \<and> (\<forall>e. apply_move v g 0 \<noteq> Inl e)
   \<and> (\<forall>j. lowest_empty (gb_board g) 6 j \<longrightarrow>
          apply_move v g 0 =
            Inr (True, switch_turn v (g\<lparr>gb_board := set_cell (gb_board g) j 6 (gb_turn g)\<rparr>)))"
  by (auto simp: apply_move_def np_index_def apply_move_rows_find find_upt_lowest[symmetric]
           simp del: upt_rec_numeral)

theorem apply_move_column_zero_witness:
  "lowest_empty zeros 6 0
   \<and> apply_move AMAF \<lparr>gb_turn = 1, gb_board = zeros, gb_cpu = 1\<rparr> 0
       = Inr (True, \<lparr>gb_turn = 2, gb_board = set_cell zeros 0 6 1, gb_cpu = 1\<rparr>)"
proof -
  let ?g = "\<lparr>gb_turn = 1, gb_board = zeros, gb_cpu = 1\<rparr>"
  have h: "lowest_empty (gb_board ?g) 6 0"
    by (simp add: lowest_empty_def zeros_def cell_def)
  from apply_move_column_zero[of AMAF ?g, THEN conjunct2, THEN conjunct2, rule_format, OF h] h
  show ?thesis by (simp add: switch_turn_def)
qed

subsection \<open>Win and tie checks\<close>

lemma find_SomeD2: "find P xs = Some x \<Longrightarrow> P x \<and> x \<in> set xs"
  by (induction xs) (auto split: if_splits)

lemma in_grid:
  "(y, x) \<in> set [(y, x). y \<leftarrow> [0..<m], x \<leftarrow> [a..<n]] \<longleftrightarrow> y < m \<and> a \<le> x \<and> x < n"
  by force

lemma find_grid_None:
  "find (\<lambda>(y, x). P y x) [(y, x). y \<leftarrow> [0..<m], x \<leftarrow> [a..<n]] = None
     \<longleftrightarrow> (\<forall>y<m. \<forall>x. a \<le> x \<and> x < n \<longrightarrow> \<not> P y x)"
proof -
  have "find (\<lambda>(y, x). P y x) [(y, x). y \<leftarrow> [0..<m], x \<leftarrow> [a..<n]] = None
     \<longleftrightarrow> (\<forall>p \<in> set [(y, x). y \<leftarrow> [0..<m], x \<leftarrow> [a..<n]]. \<not> (case p of (y, x) \<Rightarrow> P y x))"
    by (simp only: find_None_iff) blast
  also have "\<dots> \<longleftrightarrow> (\<forall>y x. (y, x) \<in> set [(y, x). y \<leftarrow> [0..<m], x \<leftarrow> [a..<n]] \<longrightarrow> \<not> P y x)"
    by force
  also have "\<dots> \<longleftrightarrow> (\<forall>y<m. \<forall>x. a \<le> x \<and> x < n \<longrightarrow> \<not> P y x)"
    by (simp only: in_grid) blast
  finally show ?thesis .
qed

lemma find_grid_Some:
  assumes "find (\<lambda>(y, x). P y x) [(y, x). y \<leftarrow> [0..<m], x \<leftarrow> [a..<n]] = Some (y, x)"
  shows "P y x \<and> y < m \<and> a \<le> x \<and> x < n"
proof -
  from find_SomeD2[OF assms] have "P y x" and "(y, x) \<in> set [(y, x). y \<leftarrow> [0..<m], x \<leftarrow> [a..<n]]"
    by simp_all
  then show ?thesis by (simp only: in_grid)
qed


lemma amaf_rows_None: "amaf_check_rows b = None \<longleftrightarrow> \<not> row_line b"
  unfolding amaf_check_rows_def map_option_is_None find_grid_None row_line_def by auto

lemma amaf_cols_None: "amaf_check_cols b = None \<longleftrightarrow> \<not> col_line b"
  unfolding amaf_check_cols_def map_option_is_None find_grid_None col_line_def by auto

lemma map_find_Some:
  "map_option f (find P xs) = Some w \<Longrightarrow> \<exists>p. P p \<and> w = f p"
  by (auto dest: find_SomeD2)

lemma amaf_rows_Some:
  assumes "amaf_check_rows b = Some w" shows "w \<noteq> 0"
proof -
  from map_find_Some[OF assms[unfolded amaf_check_rows_def]] obtain p where
    "(case p of (y, x) \<Rightarrow> chain4 (cell b y x) (cell b y (x + 1)) (cell b y (x + 2)) (cell b y (x + 3)))"
    "w = (case p of (y, x) \<Rightarrow> cell b y x)" by blast
  then show ?thesis by (cases p) (simp add: chain4_def)
qed

lemma amaf_cols_Some:
  assumes "amaf_check_cols b = Some w" shows "w \<noteq> 0"
proof -
  from map_find_Some[OF assms[unfolded amaf_check_cols_def]] obtain p where
    "(case p of (x, y) \<Rightarrow> chain4 (cell b y x) (cell b (y + 1) x) (cell b (y + 2) x) (cell b (y + 3) x))"
    "w = (case p of (x, y) \<Rightarrow> cell b y x)" by blast
  then show ?thesis by (cases p) (simp add: chain4_def)
qed

lemma falling_alt:
  "falling_line b \<longleftrightarrow> (\<exists>y<3. \<exists>x. 3 \<le> x \<and> x < 7 \<and> chain4 (cell b y x) (cell b (y + 1) (x - 1)) (cell b (y + 2) (x - 2)) (cell b (y + 3) (x - 3)))"
  (is "_ \<longleftrightarrow> ?R")
proof
  assume "falling_line b"
  then obtain y x where h: "y < 3" "x < 4" "chain4 (cell b y (x + 3)) (cell b (y + 1) (x + 2)) (cell b (y + 2) (x + 1)) (cell b (y + 3) x)"
    unfolding falling_line_def by blast
  have e: "x + 3 - 1 = x + 2" "x + 3 - 2 = x + 1" "x + 3 - 3 = x" by auto
  have "3 \<le> x + 3 \<and> x + 3 < 7 \<and> chain4 (cell b y (x + 3)) (cell b (y + 1) (x + 3 - 1)) (cell b (y + 2) (x + 3 - 2)) (cell b (y + 3) (x + 3 - 3))"
    unfolding e using h by simp
  with h(1) show ?R by blast
next
  assume ?R
  then obtain y x where h: "y < 3" "3 \<le> x" "x < 7" "chain4 (cell b y x) (cell b (y + 1) (x - 1)) (cell b (y + 2) (x - 2)) (cell b (y + 3) (x - 3))"
    by blast
  have e: "x - 3 + 3 = x" "x - 3 + 2 = x - 1" "x - 3 + 1 = x - 2" using h(2) by auto
  have "x - 3 < 4 \<and> chain4 (cell b y (x - 3 + 3)) (cell b (y + 1) (x - 3 + 2)) (cell b (y + 2) (x - 3 + 1)) (cell b (y + 3) (x - 3))"
    unfolding e using h by simp
  with h(1) show "falling_line b" unfolding falling_line_def by blast
qed

lemma amaf_diag_None: "amaf_check_diag b = None \<longleftrightarrow> \<not> rising_line b \<and> \<not> falling_line b"
proof -
  let ?f1 = "find (\<lambda>(y, x). chain4 (cell b y x) (cell b (y + 1) (x + 1)) (cell b (y + 2) (x + 2))
                              (cell b (y + 3) (x + 3))) [(y, x). y \<leftarrow> [0..<3], x \<leftarrow> [0..<4]]"
  let ?f2 = "find (\<lambda>(y, x). chain4 (cell b y x) (cell b (y + 1) (x - 1)) (cell b (y + 2) (x - 2))
                                 (cell b (y + 3) (x - 3))) [(y, x). y \<leftarrow> [0..<3], x \<leftarrow> [3..<7]]"
  have 1: "?f1 = None \<longleftrightarrow> \<not> rising_line b"
    unfolding find_grid_None rising_line_def by auto
  have 2: "?f2 = None \<longleftrightarrow> \<not> falling_line b"
    unfolding find_grid_None falling_alt by auto
  have "amaf_check_diag b = None \<longleftrightarrow> ?f1 = None \<and> ?f2 = None"
    unfolding amaf_check_diag_def by (cases ?f1) (simp_all only: option.case map_option_is_None prod.case_eq_if, simp_all)
  then show ?thesis using 1 2 by simp
qed

lemma amaf_diag_Some:
  assumes "amaf_check_diag b = Some w" shows "w \<noteq> 0"
proof -
  let ?P1 = "\<lambda>(y, x). chain4 (cell b y x) (cell b (y + 1) (x + 1)) (cell b (y + 2) (x + 2))
                              (cell b (y + 3) (x + 3))"
  let ?f1 = "find ?P1 [(y, x). y \<leftarrow> [0..<3], x \<leftarrow> [0..<4]]"
  show ?thesis
  proof (cases ?f1)
    case None
    with assms have "map_option (\<lambda>(y, x). cell b y x)
            (find (\<lambda>(y, x). chain4 (cell b y x) (cell b (y + 1) (x - 1)) (cell b (y + 2) (x - 2))
                                 (cell b (y + 3) (x - 3)))
               [(y, x). y \<leftarrow> [0..<3], x \<leftarrow> [3..<7]]) = Some w"
      unfolding amaf_check_diag_def by (simp only: option.case)
    from map_find_Some[OF this] obtain p where
      "(case p of (y, x) \<Rightarrow> chain4 (cell b y x) (cell b (y + 1) (x - 1)) (cell b (y + 2) (x - 2)) (cell b (y + 3) (x - 3)))"
      "w = (case p of (y, x) \<Rightarrow> cell b y x)" by blast
    then show ?thesis by (cases p) (simp add: chain4_def)
  next
    case (Some p)
    from find_SomeD2[OF Some] have "?P1 p" by simp
    moreover from assms Some have "w = (case p of (y, x) \<Rightarrow> cell b y x)"
      unfolding amaf_check_diag_def by (cases p) (simp only: option.case prod.case, simp)
    ultimately show ?thesis by (cases p) (simp add: chain4_def)
  qed
qed


lemma take4_drop:
  assumes "x + 4 \<le> length r"
  shows "take 4 (drop x r) = [r ! x, r ! (x + 1), r ! (x + 2), r ! (x + 3)]"
proof (rule nth_equalityI)
  show "length (take 4 (drop x r)) = length [r ! x, r ! (x + 1), r ! (x + 2), r ! (x + 3)]"
    using assms by simp
next
  fix i assume "i < length (take 4 (drop x r))"
  then have "i < 4" by simp
  then consider "i = 0" | "i = 1" | "i = 2" | "i = 3" by linarith
  then show "take 4 (drop x r) ! i = [r ! x, r ! (x + 1), r ! (x + 2), r ! (x + 3)] ! i"
    using assms by cases (simp_all add: add.commute)
qed

lemma count4: "count_list [a, b, c, d] a = 4 \<and> a \<noteq> 0 \<longleftrightarrow> chain4 a b c d"
  by (auto simp: chain4_def split: if_splits)

lemma four_of_chain4:
  "a = 0 \<or> a = 1 \<or> a = 2 \<Longrightarrow> four_of [a, b, c, d] \<longleftrightarrow> chain4 a b c d"
  by (auto simp: four_of_def chain4_def split: if_splits)

lemma shape_row: "shape_ok b \<Longrightarrow> y < 6 \<Longrightarrow> length (b ! y) = 7"
  by (simp add: shape_ok_def list_all_length)

lemma marks_cell: "shape_ok b \<Longrightarrow> marks_ok b \<Longrightarrow> y < 6 \<Longrightarrow> x < 7 \<Longrightarrow>
   cell b y x = 0 \<or> cell b y x = 1 \<or> cell b y x = 2"
  by (simp add: shape_ok_def marks_ok_def list_all_length cell_def)

lemma rave_row_test:
  assumes "shape_ok b" "y < 6" "x < 4"
  shows "count_list (take 4 (drop x (b ! y))) (b ! y ! x) = 4 \<and> b ! y ! x \<noteq> 0
         \<longleftrightarrow> chain4 (cell b y x) (cell b y (x + 1)) (cell b y (x + 2)) (cell b y (x + 3))"
proof -
  have "x + 4 \<le> length (b ! y)" using shape_row[OF assms(1,2)] assms(3) by simp
  from take4_drop[OF this] show ?thesis by (simp only: count4 cell_def)
qed

lemma column_nth: "shape_ok b \<Longrightarrow> y < 6 \<Longrightarrow> column b x ! y = cell b y x"
  by (simp add: column_def cell_def shape_ok_def)

lemma rave_col_test:
  assumes "shape_ok b" "y < 3"
  shows "count_list (take 4 (drop y (column b x))) (column b x ! y) = 4 \<and> column b x ! y \<noteq> 0
         \<longleftrightarrow> chain4 (cell b y x) (cell b (y + 1) x) (cell b (y + 2) x) (cell b (y + 3) x)"
proof -
  have "length (column b x) = 6" using assms(1) by (simp add: column_def shape_ok_def)
  then have "y + 4 \<le> length (column b x)" using assms(2) by simp
  from take4_drop[OF this]
  have "take 4 (drop y (column b x)) = [cell b y x, cell b (y + 1) x, cell b (y + 2) x, cell b (y + 3) x]"
    using assms by (simp add: column_nth)
  moreover have "column b x ! y = cell b y x" using assms by (simp add: column_nth)
  ultimately show ?thesis by (simp only: count4)
qed

lemma rave_rows_None:
  assumes "shape_ok b" shows "rave_check_rows b = None \<longleftrightarrow> \<not> row_line b"
  unfolding rave_check_rows_def map_option_is_None find_grid_None row_line_def
  using rave_row_test[OF assms] by auto

lemma rave_cols_None:
  assumes "shape_ok b" shows "rave_check_cols b = None \<longleftrightarrow> \<not> col_line b"
  unfolding rave_check_cols_def map_option_is_None find_grid_None col_line_def
  using rave_col_test[OF assms] by auto

lemma rave_rows_Some:
  assumes "rave_check_rows b = Some w" shows "w \<noteq> 0"
proof -
  from map_find_Some[OF assms[unfolded rave_check_rows_def]] obtain p where
    "(case p of (y, x) \<Rightarrow> count_list (take 4 (drop x (b ! y))) (b ! y ! x) = 4 \<and> b ! y ! x \<noteq> 0)"
    "w = (case p of (y, x) \<Rightarrow> b ! y ! x)" by blast
  then show ?thesis by (cases p) simp
qed

lemma rave_cols_Some:
  assumes "rave_check_cols b = Some w" shows "w \<noteq> 0"
proof -
  from map_find_Some[OF assms[unfolded rave_check_cols_def]] obtain p where
    "(case p of (x, y) \<Rightarrow> count_list (take 4 (drop y (column b x))) (column b x ! y) = 4
                       \<and> column b x ! y \<noteq> 0)"
    "w = (case p of (x, y) \<Rightarrow> column b x ! y)" by blast
  then show ?thesis by (cases p) simp
qed


lemma right_points_iff: "(p0, p1) \<in> set right_points \<longleftrightarrow> 3 \<le> p0 \<and> p0 < 6 \<and> p1 < 4"
  unfolding right_points_def by simp presburger

lemma left_points_iff: "(p0, p1) \<in> set left_points \<longleftrightarrow> 3 \<le> p0 \<and> p0 < 6 \<and> 3 \<le> p1 \<and> p1 < 7"
  unfolding left_points_def by simp presburger

lemma upt_0_4: "[0..<4] = [0, 1, 2, 3::nat]"
  by code_simp

lemma right_diag_cells:
  "right_diag b (p0, p1) = [cell b p0 p1, cell b (p0 - 1) (p1 + 1), cell b (p0 - 2) (p1 + 2), cell b (p0 - 3) (p1 + 3)]"
  by (simp add: right_diag_def upt_0_4)

lemma left_diag_cells:
  "left_diag b (p0, p1) = [cell b p0 p1, cell b (p0 - 1) (p1 - 1), cell b (p0 - 2) (p1 - 2), cell b (p0 - 3) (p1 - 3)]"
  by (simp add: left_diag_def upt_0_4)

lemma chain4_rev: "chain4 a b c d \<longleftrightarrow> chain4 d c b a"
  by (auto simp: chain4_def)

lemma right_test:
  assumes "shape_ok b" "marks_ok b" "y < 3" "x < 4"
  shows "four_of (right_diag b (y + 3, x)) \<longleftrightarrow>
         chain4 (cell b y (x + 3)) (cell b (y + 1) (x + 2)) (cell b (y + 2) (x + 1)) (cell b (y + 3) x)"
proof -
  have m: "cell b (y + 3) x = 0 \<or> cell b (y + 3) x = 1 \<or> cell b (y + 3) x = 2"
    using marks_cell[OF assms(1,2), of "y + 3" x] assms(3,4) by simp
  have e: "y + 3 - 1 = y + 2" "y + 3 - 2 = y + 1" "y + 3 - 3 = y" by simp_all
  show ?thesis
    unfolding right_diag_cells e four_of_chain4[OF m] by (rule chain4_rev)
qed

lemma left_test:
  assumes "shape_ok b" "marks_ok b" "y < 3" "x < 4"
  shows "four_of (left_diag b (y + 3, x + 3)) \<longleftrightarrow>
         chain4 (cell b y x) (cell b (y + 1) (x + 1)) (cell b (y + 2) (x + 2)) (cell b (y + 3) (x + 3))"
proof -
  have m: "cell b (y + 3) (x + 3) = 0 \<or> cell b (y + 3) (x + 3) = 1 \<or> cell b (y + 3) (x + 3) = 2"
    using marks_cell[OF assms(1,2), of "y + 3" "x + 3"] assms(3,4) by simp
  have e: "y + 3 - 1 = y + 2" "y + 3 - 2 = y + 1" "y + 3 - 3 = y"
          "x + 3 - 1 = x + 2" "x + 3 - 2 = x + 1" "x + 3 - 3 = x" by simp_all
  show ?thesis
    unfolding left_diag_cells e four_of_chain4[OF m] by (rule chain4_rev)
qed

lemma find_right_None:
  assumes "shape_ok b" "marks_ok b"
  shows "find (\<lambda>p. four_of (right_diag b p)) right_points = None \<longleftrightarrow> \<not> falling_line b"
proof
  assume n: "find (\<lambda>p. four_of (right_diag b p)) right_points = None"
  show "\<not> falling_line b"
  proof
    assume "falling_line b"
    then obtain y x where h: "y < 3" "x < 4"
      "chain4 (cell b y (x + 3)) (cell b (y + 1) (x + 2)) (cell b (y + 2) (x + 1)) (cell b (y + 3) x)"
      unfolding falling_line_def by blast
    have "(y + 3, x) \<in> set right_points" using h(1,2) by (simp only: right_points_iff) simp
    with n have "\<not> four_of (right_diag b (y + 3, x))" unfolding find_None_iff by blast
    with right_test[OF assms h(1,2)] h(3) show False by simp
  qed
next
  assume nf: "\<not> falling_line b"
  show "find (\<lambda>p. four_of (right_diag b p)) right_points = None"
    unfolding find_None_iff
  proof (intro notI, elim exE conjE)
    fix p assume p: "p \<in> set right_points" "four_of (right_diag b p)"
    obtain p0 p1 where pe: "p = (p0, p1)" by (cases p)
    from p(1) have r: "3 \<le> p0" "p0 < 6" "p1 < 4" unfolding pe right_points_iff by simp_all
    define y where "y = p0 - 3"
    have y: "y < 3" "p0 = y + 3" using r by (simp_all add: y_def)
    from p(2) right_test[OF assms y(1) r(3)] have
      "chain4 (cell b y (p1 + 3)) (cell b (y + 1) (p1 + 2)) (cell b (y + 2) (p1 + 1)) (cell b (y + 3) p1)"
      unfolding pe y(2) by simp
    with y(1) r(3) nf show False unfolding falling_line_def by blast
  qed
qed

lemma find_left_None:
  assumes "shape_ok b" "marks_ok b"
  shows "find (\<lambda>p. four_of (left_diag b p)) left_points = None \<longleftrightarrow> \<not> rising_line b"
proof
  assume n: "find (\<lambda>p. four_of (left_diag b p)) left_points = None"
  show "\<not> rising_line b"
  proof
    assume "rising_line b"
    then obtain y x where h: "y < 3" "x < 4"
      "chain4 (cell b y x) (cell b (y + 1) (x + 1)) (cell b (y + 2) (x + 2)) (cell b (y + 3) (x + 3))"
      unfolding rising_line_def by blast
    have "(y + 3, x + 3) \<in> set left_points" using h(1,2) by (simp only: left_points_iff) simp
    with n have "\<not> four_of (left_diag b (y + 3, x + 3))" unfolding find_None_iff by blast
    with left_test[OF assms h(1,2)] h(3) show False by simp
  qed
next
  assume nf: "\<not> rising_line b"
  show "find (\<lambda>p. four_of (left_diag b p)) left_points = None"
    unfolding find_None_iff
  proof (intro notI, elim exE conjE)
    fix p assume p: "p \<in> set left_points" "four_of (left_diag b p)"
    obtain p0 p1 where pe: "p = (p0, p1)" by (cases p)
    from p(1) have r: "3 \<le> p0" "p0 < 6" "3 \<le> p1" "p1 < 7" unfolding pe left_points_iff by simp_all
    define y where "y = p0 - 3"
    define x where "x = p1 - 3"
    have y: "y < 3" "p0 = y + 3" using r by (simp_all add: y_def)
    have x: "x < 4" "p1 = x + 3" using r by (simp_all add: x_def)
    from p(2) left_test[OF assms y(1) x(1)] have
      "chain4 (cell b y x) (cell b (y + 1) (x + 1)) (cell b (y + 2) (x + 2)) (cell b (y + 3) (x + 3))"
      unfolding pe y(2) x(2) by simp
    with y(1) x(1) nf show False unfolding rising_line_def by blast
  qed
qed

lemma rave_diag_None:
  assumes "shape_ok b" "marks_ok b"
  shows "rave_check_diag b = None \<longleftrightarrow> \<not> rising_line b \<and> \<not> falling_line b"
proof -
  have "rave_check_diag b = None \<longleftrightarrow>
        find (\<lambda>p. four_of (right_diag b p)) right_points = None
        \<and> find (\<lambda>p. four_of (left_diag b p)) left_points = None"
    unfolding rave_check_diag_def
    by (cases "find (\<lambda>p. four_of (right_diag b p)) right_points") simp_all
  then show ?thesis using find_right_None[OF assms] find_left_None[OF assms] by blast
qed

lemma four_of_hd: "four_of [a, b, c, d] \<Longrightarrow> a \<noteq> 0"
  by (auto simp: four_of_def split: if_splits)

lemma rave_diag_Some:
  assumes "rave_check_diag b = Some w" shows "w \<noteq> 0"
proof (cases "find (\<lambda>p. four_of (right_diag b p)) right_points")
  case None
  with assms have "map_option (\<lambda>p. left_diag b p ! 0) (find (\<lambda>p. four_of (left_diag b p)) left_points) = Some w"
    unfolding rave_check_diag_def by simp
  from map_find_Some[OF this] obtain p where p: "four_of (left_diag b p)" "w = left_diag b p ! 0" by blast
  then show ?thesis by (cases p) (auto simp: left_diag_cells dest: four_of_hd)
next
  case (Some p)
  from find_SomeD2[OF Some] have "four_of (right_diag b p)" by simp
  moreover from assms Some have "w = right_diag b p ! 0" unfolding rave_check_diag_def by simp
  ultimately show ?thesis by (cases p) (auto simp: right_diag_cells dest: four_of_hd)
qed

lemma all_nonzero_full: "shape_ok b \<Longrightarrow> all_nonzero b \<longleftrightarrow> full b"
  by (auto simp: all_nonzero_def full_def shape_ok_def list_all_length cell_def)

lemma check_rows_None: "shape_ok b \<Longrightarrow> check_rows v b = None \<longleftrightarrow> \<not> row_line b"
  by (cases v) (simp_all add: check_rows_def amaf_rows_None rave_rows_None)

lemma check_cols_None: "shape_ok b \<Longrightarrow> check_cols v b = None \<longleftrightarrow> \<not> col_line b"
  by (cases v) (simp_all add: check_cols_def amaf_cols_None rave_cols_None)

lemma check_diag_None:
  "shape_ok b \<Longrightarrow> marks_ok b \<Longrightarrow> check_diag v b = None \<longleftrightarrow> \<not> rising_line b \<and> \<not> falling_line b"
  by (cases v) (simp_all add: check_diag_def amaf_diag_None rave_diag_None)

lemma check_rows_Some: "check_rows v b = Some w \<Longrightarrow> w \<noteq> 0"
  by (cases v) (auto simp: check_rows_def dest: amaf_rows_Some rave_rows_Some)

lemma check_cols_Some: "check_cols v b = Some w \<Longrightarrow> w \<noteq> 0"
  by (cases v) (auto simp: check_cols_def dest: amaf_cols_Some rave_cols_Some)

lemma check_diag_Some: "check_diag v b = Some w \<Longrightarrow> w \<noteq> 0"
  by (cases v) (auto simp: check_diag_def dest: amaf_diag_Some rave_diag_Some)

lemma check_tie_full:
  assumes "shape_ok b" "check_rows v b = None" "check_cols v b = None" "check_diag v b = None"
  shows "check_tie v b \<longleftrightarrow> full b"
  using assms
  by (cases v) (simp_all add: check_tie_def amaf_check_tie_def rave_check_tie_def truthy_def
        check_rows_def check_cols_def check_diag_def all_nonzero_full)

text \<open>
  Claim C4. On every 6 by 7 board with marks 0, 1, 2, \<^verbatim>\<open>check_win\<close> of either file returns
  exactly one of (False, None) [in progress], (True, None) [tie] and (True, p) with a
  player p [win]. It returns the tie exactly when every cell is occupied and there is no
  line of four, and a win exactly when there is a line of four, so a full board with a
  line is a win.
\<close>

theorem check_win_outcome:
  assumes "shape_ok b" and "marks_ok b"
  shows "(check_win v b = (False, None) \<or> check_win v b = (True, None)
          \<or> (\<exists>p. p \<noteq> 0 \<and> check_win v b = (True, Some p)))
       \<and> (check_win v b = (True, None) \<longleftrightarrow> full b \<and> \<not> has_line b)
       \<and> ((\<exists>p. check_win v b = (True, Some p)) \<longleftrightarrow> has_line b)"
proof (cases "check_rows v b")
  case (Some w)
  then have "check_win v b = (True, Some w)" by (simp add: check_win_def)
  moreover have "w \<noteq> 0" using Some by (rule check_rows_Some)
  moreover have "has_line b" using Some check_rows_None[OF assms(1), of v] by (simp add: has_line_def)
  ultimately show ?thesis by simp
next
  case r: None
  show ?thesis
  proof (cases "check_cols v b")
    case (Some w)
    then have "check_win v b = (True, Some w)" using r by (simp add: check_win_def)
    moreover have "w \<noteq> 0" using Some by (rule check_cols_Some)
    moreover have "has_line b" using Some check_cols_None[OF assms(1), of v] by (simp add: has_line_def)
    ultimately show ?thesis by simp
  next
    case c: None
    show ?thesis
    proof (cases "check_diag v b")
      case (Some w)
      then have "check_win v b = (True, Some w)" using r c by (simp add: check_win_def)
      moreover have "w \<noteq> 0" using Some by (rule check_diag_Some)
      moreover have "has_line b" using Some check_diag_None[OF assms, of v] by (auto simp: has_line_def)
      ultimately show ?thesis by simp
    next
      case d: None
      have nl: "\<not> has_line b"
        using r c d check_rows_None[OF assms(1), of v] check_cols_None[OF assms(1), of v]
          check_diag_None[OF assms, of v] by (simp add: has_line_def)
      have "check_win v b = (if full b then (True, None) else (False, None))"
        using r c d check_tie_full[OF assms(1) r c d] by (simp add: check_win_def)
      then show ?thesis using nl by simp
    qed
  qed
qed

theorem check_win_outcome_witness:
  "shape_ok tie_board \<and> marks_ok tie_board
   \<and> check_win AMAF tie_board = (True, None) \<and> check_win RAVE tie_board = (True, None)
   \<and> full tie_board \<and> \<not> has_line tie_board
   \<and> shape_ok full_win_board \<and> marks_ok full_win_board
   \<and> check_win AMAF full_win_board = (True, Some 2) \<and> check_win RAVE full_win_board = (True, Some 2)
   \<and> has_line full_win_board"
proof -
  have s: "shape_ok tie_board" "marks_ok tie_board" by code_simp+
  have s': "shape_ok full_win_board" "marks_ok full_win_board" by code_simp+
  have a: "check_win AMAF tie_board = (True, None)" by code_simp
  have a': "check_win RAVE tie_board = (True, None)" by code_simp
  have b: "check_win AMAF full_win_board = (True, Some 2)" by code_simp
  have b': "check_win RAVE full_win_board = (True, Some 2)" by code_simp
  from check_win_outcome[OF s, of AMAF] a have 1: "full tie_board \<and> \<not> has_line tie_board" by simp
  from check_win_outcome[OF s', of RAVE] b' have 2: "has_line full_win_board" by blast
  show ?thesis using s s' a a' b b' 1 2 by simp
qed

section \<open>Properties of the search\<close>

subsection \<open>The rollout loop ends\<close>

text \<open>
  \<^verbatim>\<open>result\<close> returns \<^verbatim>\<open>None\<close> or a player, never 0, so the test \<^verbatim>\<open>terminal != 0\<close> is always
  true and the loop body never runs a second time. This is also why the loop ends.
\<close>

lemma result_ne_zero: "ne_zero (result v b)"
  by (auto simp: ne_zero_def result_def split: option.splits
      dest: check_rows_Some check_cols_Some check_diag_Some)

lemma rollout_ply_terminal:
  "rollout_ply v rnd st b turn actions moves = (nb, acts, terminal, st') \<Longrightarrow> ne_zero terminal"
  by (auto simp: rollout_ply_def Let_def result_ne_zero split: prod.splits)

termination rollout_loop
proof (relation "{}")
  show "wf {}" by simp
next
  fix v rnd st "term" b turn actions x xa xb y xaa xab ya xac yb xad yc
  assume "xaa = rollout_ply v rnd y b x actions xb" "(xab, ya) = xaa" "(xac, yb) = ya"
    "(xad, yc) = yb" "\<not> ne_zero xad"
  then have "rollout_ply v rnd y b x actions xb = (xab, xac, xad, yc)" by simp
  from rollout_ply_terminal[OF this] \<open>\<not> ne_zero xad\<close>
  show "((v, rnd, yc, term, xab, x, xac), v, rnd, st, term, b, turn, actions) \<in> {}" by simp
qed

declare rollout_loop.simps [simp del]

lemma rollout_loop_once:
  "rollout_loop v rnd st term b turn actions =
     (if term then ((result v (arrays st ! b), actions), st)
      else
        (let turn1 = rollout_flip v turn;
             (moves, st1) = get_moves v st b turn1
         in if moves = [] then ((result v (arrays st1 ! b), actions), st1)
            else
              (let (next_board, actions1, terminal, st2) = rollout_ply v rnd st1 b turn1 actions moves
               in ((terminal, actions1), st2))))"
  by (subst rollout_loop.simps)
     (auto simp: Let_def split: prod.splits dest: rollout_ply_terminal)

text \<open>
  The scores are real numbers built with square root and logarithm, which have no
  executable form; evaluations of the search on examples leave \<open>combined_value\<close>
  as it is.
\<close>

declare combined_value_def [code del]

subsection \<open>Expansion: what \<^verbatim>\<open>add_child\<close> does\<close>

lemma copy_write:
  "(case copy_array st a of (tmp, st1) \<Rightarrow> F tmp (write_cell st1 tmp j i m))
   = F (length (arrays st)) (st\<lparr>arrays := arrays st @ [set_cell (arrays st ! a) j i m]\<rparr>)"
  by (simp add: copy_array_def write_cell_def)

lemma heap_okD: "heap_ok st \<Longrightarrow> k < length (nodes st) \<Longrightarrow> node_board (nodes st ! k) < length (arrays st)"
  by (simp add: heap_ok_def list_all_length)

lemma board_of_push:
  "node_board (nodes st ! k) < length (arrays st) \<Longrightarrow>
   board_of (st\<lparr>arrays := arrays st @ xs\<rparr>) k = board_of st k"
  by (simp add: board_of_def nth_append)

lemma heap_ok_push: "heap_ok st \<Longrightarrow> heap_ok (st\<lparr>arrays := arrays st @ xs\<rparr>)"
  by (auto simp: heap_ok_def list_all_iff)

lemma push_same:
  assumes "heap_ok st" "kids_ok st k"
  shows "board_of (st\<lparr>arrays := arrays st @ xs\<rparr>) k = board_of st k"
    and "drop_board v (st\<lparr>arrays := arrays st @ xs\<rparr>) k j i = drop_board v st k j i"
    and "board_of (st\<lparr>arrays := arrays st @ xs\<rparr>) ` set (node_children (nodes st ! k))
         = board_of st ` set (node_children (nodes st ! k))"
    and "heap_ok (st\<lparr>arrays := arrays st @ xs\<rparr>)"
    and "kids_ok (st\<lparr>arrays := arrays st @ xs\<rparr>) k"
proof -
  have k: "k < length (nodes st)" using assms(2) by (simp add: kids_ok_def)
  show 1: "board_of (st\<lparr>arrays := arrays st @ xs\<rparr>) k = board_of st k"
    using heap_okD[OF assms(1) k] by (rule board_of_push)
  show "drop_board v (st\<lparr>arrays := arrays st @ xs\<rparr>) k j i = drop_board v st k j i"
    by (simp add: drop_board_def 1)
  have "board_of (st\<lparr>arrays := arrays st @ xs\<rparr>) c = board_of st c"
    if "c \<in> set (node_children (nodes st ! k))" for c
  proof -
    from that assms(2) have "c < length (nodes st)" by (simp add: kids_ok_def list_all_iff)
    from heap_okD[OF assms(1) this] show ?thesis by (rule board_of_push)
  qed
  then show "board_of (st\<lparr>arrays := arrays st @ xs\<rparr>) ` set (node_children (nodes st ! k))
         = board_of st ` set (node_children (nodes st ! k))" by (intro image_cong) simp_all
  show "heap_ok (st\<lparr>arrays := arrays st @ xs\<rparr>)" using assms(1) by (rule heap_ok_push)
  show "kids_ok (st\<lparr>arrays := arrays st @ xs\<rparr>) k" using assms(2) by (simp add: kids_ok_def)
qed

lemma board_among_iff:
  "board_among st tmp cs \<longleftrightarrow> arrays st ! tmp \<in> board_of st ` set cs"
  by (auto simp: board_among_def list_ex_iff)

lemma add_child_cols_step:
  assumes "heap_ok st" "kids_ok st k"
  shows "add_child_cols v st k (i # rest) =
     (if cell (board_of st k) 5 i = 0 then
        (case find (\<lambda>j. cell (board_of st k) j i = 0) [0..<6] of
           None \<Rightarrow> add_child_cols v st k rest
         | Some j \<Rightarrow>
             (let st2 = st\<lparr>arrays := arrays st @ [drop_board v st k j i]\<rparr>
              in if drop_board v st k j i \<notin> board_of st ` set (node_children (nodes st ! k))
                 then append_child v st2 k (length (arrays st))
                 else add_child_cols v st2 k rest))
      else add_child_cols v st k rest)"
proof -
  have "board_among (st\<lparr>arrays := arrays st @ [drop_board v st k j i]\<rparr>) (length (arrays st))
          (node_children (nodes st ! k))
        \<longleftrightarrow> drop_board v st k j i \<in> board_of st ` set (node_children (nodes st ! k))" for j
    unfolding board_among_iff
    using push_same(3)[OF assms, where xs="[drop_board v st k j i]"] by simp
  then show ?thesis
    by (simp add: drop_board_def board_of_def copy_array_def write_cell_def Let_def
             split: option.splits)
qed

lemma append_child_effect:
  assumes "k < length (nodes st)" "length (arrays st0) < length (arrays st)" "last (arrays st) = nb"
  shows "nodes (append_child v st k (length (arrays st) - 1)) =
           (nodes st)[k := (nodes st ! k)\<lparr>node_children := node_children (nodes st ! k) @ [length (nodes st)]\<rparr>]
           @ [child_node v k (node_turn (nodes st ! k)) (length (arrays st) - 1) nb]"
    and "arrays (append_child v st k a) = arrays st"
    and "amaf_stats (append_child v st k a) = amaf_stats st"
    and "draws (append_child v st k a) = draws st"
proof -
  have ne: "arrays st \<noteq> []" using assms(2) by auto
  have "arrays st ! (length (arrays st) - 1) = nb" using assms(3) ne by (simp add: last_conv_nth)
  then show "nodes (append_child v st k (length (arrays st) - 1)) =
           (nodes st)[k := (nodes st ! k)\<lparr>node_children := node_children (nodes st ! k) @ [length (nodes st)]\<rparr>]
           @ [child_node v k (node_turn (nodes st ! k)) (length (arrays st) - 1) nb]"
    using assms(1)
    by (simp add: append_child_def Node_init_def child_node_def nth_append list_update_append)
  show "arrays (append_child v st k a) = arrays st"
    "amaf_stats (append_child v st k a) = amaf_stats st"
    "draws (append_child v st k a) = draws st"
    by (simp_all add: append_child_def Node_init_def)
qed

lemma same_tables_push:
  "same_tables (st\<lparr>arrays := arrays st @ xs\<rparr>) st' \<Longrightarrow> same_tables st st'"
  by (auto simp: same_tables_def dest: append_prefixD)

lemma appended_push:
  assumes "heap_ok st" "kids_ok st k"
    and "appended v (st\<lparr>arrays := arrays st @ xs\<rparr>) k j i st'"
  shows "appended v st k j i st'"
  using assms(3) push_same(1-3)[OF assms(1,2), where xs=xs]
  by (simp add: appended_def)

lemma add_child_cols_effect:
  assumes "heap_ok st" "kids_ok st k"
  shows "same_tables st (add_child_cols v st k cols)
       \<and> (exhausted v st k cols (add_child_cols v st k cols)
          \<or> (\<exists>j i. i \<in> set cols \<and> cell (board_of st k) 5 i = 0 \<and> lowest_empty (board_of st k) i j
                \<and> appended v st k j i (add_child_cols v st k cols)))"
  using assms
proof (induction cols arbitrary: st)
  case Nil
  then show ?case by (simp add: same_tables_def exhausted_def)
next
  case (Cons i rest)
  note step = add_child_cols_step[OF Cons.prems, of v i rest]
  let ?b = "board_of st k"
  let ?R = "\<lambda>st'. exhausted v st k (i # rest) st'
          \<or> (\<exists>j i'. i' \<in> set (i # rest) \<and> cell ?b 5 i' = 0 \<and> lowest_empty ?b i' j \<and> appended v st k j i' st')"
  have skip: "same_tables st (add_child_cols v st k rest) \<and> ?R (add_child_cols v st k rest)"
    if "\<forall>j. cell ?b 5 i = 0 \<longrightarrow> \<not> lowest_empty ?b i j"
  proof -
    from Cons.IH[OF Cons.prems] have t: "same_tables st (add_child_cols v st k rest)"
      and d: "exhausted v st k rest (add_child_cols v st k rest)
          \<or> (\<exists>j i'. i' \<in> set rest \<and> cell ?b 5 i' = 0 \<and> lowest_empty ?b i' j
                \<and> appended v st k j i' (add_child_cols v st k rest))" by blast+
    from d have "?R (add_child_cols v st k rest)"
    proof
      assume "exhausted v st k rest (add_child_cols v st k rest)"
      with that have "exhausted v st k (i # rest) (add_child_cols v st k rest)"
        by (auto simp: exhausted_def)
      then show ?thesis by blast
    next
      assume "\<exists>j i'. i' \<in> set rest \<and> cell ?b 5 i' = 0 \<and> lowest_empty ?b i' j
                \<and> appended v st k j i' (add_child_cols v st k rest)"
      then show ?thesis by auto
    qed
    with t show ?thesis by blast
  qed
  show ?case
  proof (cases "cell ?b 5 i = 0")
    case False
    then have "add_child_cols v st k (i # rest) = add_child_cols v st k rest" using step by simp
    with skip False show ?thesis by simp
  next
    case top: True
    show ?thesis
    proof (cases "find (\<lambda>j. cell ?b j i = 0) [0..<6]")
      case None
      then have "add_child_cols v st k (i # rest) = add_child_cols v st k rest"
        using step top by simp
      moreover have "\<forall>j. cell ?b 5 i = 0 \<longrightarrow> \<not> lowest_empty ?b i j"
        using None find_upt_lowest[of ?b i] by simp
      ultimately show ?thesis using skip by simp
    next
      case (Some j)
      then have low: "lowest_empty ?b i j" by (simp add: find_upt_lowest)
      let ?nb = "drop_board v st k j i"
      let ?st2 = "st\<lparr>arrays := arrays st @ [?nb]\<rparr>"
      note ps = push_same[OF Cons.prems, where xs="[?nb]"]
      show ?thesis
      proof (cases "?nb \<in> board_of st ` set (node_children (nodes st ! k))")
        case dup: True
        have eq: "add_child_cols v st k (i # rest) = add_child_cols v ?st2 k rest"
          using step top Some dup by (simp add: Let_def)
        from Cons.IH[OF ps(4,5)] have t: "same_tables ?st2 (add_child_cols v ?st2 k rest)"
          and d: "exhausted v ?st2 k rest (add_child_cols v ?st2 k rest)
            \<or> (\<exists>j i'. i' \<in> set rest \<and> cell (board_of ?st2 k) 5 i' = 0 \<and> lowest_empty (board_of ?st2 k) i' j
                \<and> appended v ?st2 k j i' (add_child_cols v ?st2 k rest))" by blast+
        have t': "same_tables st (add_child_cols v ?st2 k rest)"
          using t by (rule same_tables_push)
        from d have "?R (add_child_cols v ?st2 k rest)"
        proof
          assume e: "exhausted v ?st2 k rest (add_child_cols v ?st2 k rest)"
          have "drop_board v st k j' i \<in> board_of st ` set (node_children (nodes st ! k))"
            if "lowest_empty ?b i j'" for j'
          proof -
            from that have "find (\<lambda>j. cell ?b j i = 0) [0..<6] = Some j'" by (simp add: find_upt_lowest)
            with Some have "j' = j" by simp
            with dup show ?thesis by simp
          qed
          with e have "exhausted v st k (i # rest) (add_child_cols v ?st2 k rest)"
            using push_same(1-3)[OF Cons.prems, where xs="[?nb]"]
            by (simp add: exhausted_def)
          then show ?thesis by blast
        next
          assume "\<exists>j i'. i' \<in> set rest \<and> cell (board_of ?st2 k) 5 i' = 0 \<and> lowest_empty (board_of ?st2 k) i' j
                \<and> appended v ?st2 k j i' (add_child_cols v ?st2 k rest)"
          then obtain j' i' where h: "i' \<in> set rest" "cell (board_of ?st2 k) 5 i' = 0"
            "lowest_empty (board_of ?st2 k) i' j'" "appended v ?st2 k j' i' (add_child_cols v ?st2 k rest)"
            by blast
          from appended_push[OF Cons.prems h(4)] h(1-3) ps(1)
          show ?thesis by auto
        qed
        with t' eq show ?thesis by simp
      next
        case new: False
        have eq: "add_child_cols v st k (i # rest) = append_child v ?st2 k (length (arrays st))"
          using step top Some new by (simp add: Let_def)
        have k: "k < length (nodes ?st2)" using Cons.prems(2) by (simp add: kids_ok_def)
        have l: "length (arrays st) < length (arrays ?st2)" "last (arrays ?st2) = ?nb" by simp_all
        have la: "length (arrays ?st2) - 1 = length (arrays st)" by simp
        note ac = append_child_effect[OF k l, of v, unfolded la]
        have "same_tables st (append_child v ?st2 k (length (arrays st)))"
          using ac(2-4)[of "length (arrays st)"] by (simp add: same_tables_def)
        moreover have "appended v st k j i (append_child v ?st2 k (length (arrays st)))"
          using ac(1) ac(2)[of "length (arrays st)"] new by (simp add: appended_def)
        ultimately show ?thesis using eq top low by auto
      qed
    qed
  qed
qed

lemma prefix_nth: "prefix xs ys \<Longrightarrow> a < length xs \<Longrightarrow> ys ! a = xs ! a"
  by (auto simp: prefix_def nth_append)

lemma board_of_keep:
  assumes "heap_ok st" "c < length (nodes st)" "prefix (arrays st) (arrays st')"
    and "c < length (nodes st')" "node_board (nodes st' ! c) = node_board (nodes st ! c)"
  shows "board_of st' c = board_of st c"
  using prefix_nth[OF assms(3) heap_okD[OF assms(1,2)]] assms(5) by (simp add: board_of_def)

lemma exhausted_boards:
  assumes "heap_ok st" "kids_ok st k" "same_tables st st'" "exhausted v st k cols st'" "c < length (nodes st)"
  shows "board_of st' c = board_of st c" "node_children (nodes st' ! k) = node_children (nodes st ! k)"
    "node_expanded (nodes st' ! k)" "length (nodes st') = length (nodes st)"
proof -
  have k: "k < length (nodes st)" using assms(2) by (simp add: kids_ok_def)
  have n: "nodes st' = (nodes st)[k := (nodes st ! k)\<lparr>node_expanded := True\<rparr>]"
    using assms(4) by (simp add: exhausted_def)
  have nb: "node_board (nodes st' ! c) = node_board (nodes st ! c)"
    unfolding n using assms(5) by (cases "c = k") simp_all
  have c': "c < length (nodes st')" unfolding n using assms(5) by simp
  have p: "prefix (arrays st) (arrays st')" using assms(3) by (simp add: same_tables_def)
  show "board_of st' c = board_of st c"
    by (rule board_of_keep[OF assms(1,5) p c' nb])
  show "node_children (nodes st' ! k) = node_children (nodes st ! k)" "node_expanded (nodes st' ! k)"
    "length (nodes st') = length (nodes st)"
    unfolding n using k by simp_all
qed

lemma appended_boards:
  assumes "heap_ok st" "kids_ok st k" "same_tables st st'" "appended v st k j i st'"
  shows "c < length (nodes st) \<Longrightarrow> board_of st' c = board_of st c"
    and "node_children (nodes st' ! k) = node_children (nodes st ! k) @ [length (nodes st)]"
    and "board_of st' (length (nodes st)) = drop_board v st k j i"
    and "length (nodes st') = Suc (length (nodes st))"
    and "node_expanded (nodes st' ! k) = node_expanded (nodes st ! k)"
proof -
  have k: "k < length (nodes st)" using assms(2) by (simp add: kids_ok_def)
  let ?new = "child_node v k (node_turn (nodes st ! k)) (length (arrays st') - 1) (drop_board v st k j i)"
  have n: "nodes st' =
         (nodes st)[k := (nodes st ! k)\<lparr>node_children := node_children (nodes st ! k) @ [length (nodes st)]\<rparr>]
         @ [?new]"
    and l: "last (arrays st') = drop_board v st k j i" and ne: "length (arrays st) < length (arrays st')"
    using assms(4) by (simp_all add: appended_def)
  show "board_of st' c = board_of st c" if c: "c < length (nodes st)"
  proof -
    have nb: "node_board (nodes st' ! c) = node_board (nodes st ! c)"
      unfolding n using c by (cases "c = k") (simp_all add: nth_append)
    have c': "c < length (nodes st')" unfolding n using c by simp
    have p: "prefix (arrays st) (arrays st')" using assms(3) by (simp add: same_tables_def)
    show ?thesis
      by (rule board_of_keep[OF assms(1) c p c' nb])
  qed
  show "node_children (nodes st' ! k) = node_children (nodes st ! k) @ [length (nodes st)]"
    "node_expanded (nodes st' ! k) = node_expanded (nodes st ! k)"
    unfolding n using k by (simp_all add: nth_append)
  have new: "nodes st' ! length (nodes st) = ?new"
    unfolding n by (metis length_list_update nth_append_length)
  have "arrays st' \<noteq> []" using ne by auto
  then show "board_of st' (length (nodes st)) = drop_board v st k j i"
    unfolding board_of_def new using l by (simp add: child_node_def last_conv_nth)
  show "length (nodes st') = Suc (length (nodes st))" unfolding n by simp
qed

lemma child_mark_nonzero:
  "turn = 1 \<or> turn = 2 \<Longrightarrow> child_mark v turn \<noteq> 0"
  by (cases v) (auto simp: child_mark_def)

lemma drop_one_cell:
  assumes "shape_ok (board_of st k)" "lowest_empty (board_of st k) i j" "i < 7"
    and "child_mark v (node_turn (nodes st ! k)) \<noteq> 0"
  shows "one_cell_apart (board_of st k) (drop_board v st k j i)"
proof -
  have j: "j < 6" and z: "cell (board_of st k) j i = 0" using assms(2) by (simp_all add: lowest_empty_def)
  note c = cell_set_cell[OF assms(1) j assms(3)]
  show ?thesis unfolding one_cell_apart_def drop_board_def
    using j assms(3,4) z by (intro exI[of _ j] conjI exI[of _ i]) (auto simp: c)
qed

text \<open>
  Claim C8. At a node whose children have pairwise different boards, \<^verbatim>\<open>add_child\<close>
  either leaves the list of children as it is or appends one new node, whose board
  differs from the node's board in exactly one cell; afterwards the children's boards
  are still pairwise different, and the boards of the node and of its old children are
  untouched. When every legal drop is already the board of a child, nothing is appended
  and the node is marked expanded.
\<close>

theorem add_child_one_new_board:
  assumes "heap_ok st" and "kids_ok st k" and "shape_ok (board_of st k)"
    and "node_turn (nodes st ! k) = 1 \<or> node_turn (nodes st ! k) = 2"
    and "distinct (map (board_of st) (node_children (nodes st ! k)))"
  shows "(node_children (nodes (add_child v st k) ! k) = node_children (nodes st ! k)
          \<or> node_children (nodes (add_child v st k) ! k) = node_children (nodes st ! k) @ [length (nodes st)]
             \<and> one_cell_apart (board_of (add_child v st k) k) (board_of (add_child v st k) (length (nodes st))))
       \<and> distinct (map (board_of (add_child v st k)) (node_children (nodes (add_child v st k) ! k)))
       \<and> board_of (add_child v st k) k = board_of st k
       \<and> (\<forall>c \<in> set (node_children (nodes st ! k)). board_of (add_child v st k) c = board_of st c)
       \<and> (legal_drops v st k \<subseteq> board_of st ` set (node_children (nodes st ! k)) \<longrightarrow>
            node_children (nodes (add_child v st k) ! k) = node_children (nodes st ! k)
            \<and> node_expanded (nodes (add_child v st k) ! k))"
proof (cases "node_expanded (nodes st ! k)")
  case True
  then have "add_child v st k = st" by (simp add: add_child_def)
  then show ?thesis using assms(5) True by simp
next
  case False
  let ?st' = "add_child v st k"
  let ?cs = "node_children (nodes st ! k)"
  have e: "?st' = add_child_cols v st k [0..<7]" using False by (simp add: add_child_def)
  have k: "k < length (nodes st)" using assms(2) by (simp add: kids_ok_def)
  have cs: "c < length (nodes st)" if "c \<in> set ?cs" for c
    using that assms(2) by (simp add: kids_ok_def list_all_iff)
  from add_child_cols_effect[OF assms(1,2), of v "[0..<7]"]
  have t: "same_tables st ?st'"
    and d: "exhausted v st k [0..<7] ?st'
          \<or> (\<exists>j i. i \<in> set [0..<7] \<and> cell (board_of st k) 5 i = 0 \<and> lowest_empty (board_of st k) i j
                \<and> appended v st k j i ?st')"
    unfolding e by blast+
  from d show ?thesis
  proof
    assume x: "exhausted v st k [0..<7] ?st'"
    note eb = exhausted_boards[OF assms(1,2) t x]
    have old: "board_of ?st' c = board_of st c" if "c \<in> set ?cs" for c
      using eb(1)[OF cs[OF that]] .
    have m: "map (board_of ?st') ?cs = map (board_of st) ?cs" using old by simp
    have 1: "distinct (map (board_of ?st') (node_children (nodes ?st' ! k)))"
      unfolding eb(2)[OF k] m using assms(5) .
    show ?thesis using eb(1)[OF k] eb(2)[OF k] eb(3)[OF k] old 1 by simp
  next
    assume "\<exists>j i. i \<in> set [0..<7] \<and> cell (board_of st k) 5 i = 0 \<and> lowest_empty (board_of st k) i j
                \<and> appended v st k j i ?st'"
    then obtain j i where h: "i < 7" "cell (board_of st k) 5 i = 0" "lowest_empty (board_of st k) i j"
      "appended v st k j i ?st'" by auto
    note ab = appended_boards[OF assms(1,2) t h(4)]
    have old: "board_of ?st' c = board_of st c" if "c \<in> set ?cs" for c
      using ab(1)[OF cs[OF that]] .
    have new: "drop_board v st k j i \<notin> board_of st ` set ?cs" using h(4) by (simp add: appended_def)
    have m: "map (board_of ?st') ?cs = map (board_of st) ?cs" using old by simp
    have "map (board_of ?st') (?cs @ [length (nodes st)]) = map (board_of st) ?cs @ [drop_board v st k j i]"
      by (simp only: map_append m list.map ab(3))
    moreover have "distinct (map (board_of st) ?cs @ [drop_board v st k j i])"
      using new assms(5) by simp
    ultimately have 1: "distinct (map (board_of ?st') (node_children (nodes ?st' ! k)))"
      unfolding ab(2) by (simp only:)
    have 2: "one_cell_apart (board_of ?st' k) (board_of ?st' (length (nodes st)))"
      unfolding ab(1)[OF k] ab(3)
      by (rule drop_one_cell[OF assms(3) h(3,1) child_mark_nonzero[OF assms(4)]])
    have 3: "\<not> legal_drops v st k \<subseteq> board_of st ` set ?cs"
      using new h(1-3) by (auto simp: legal_drops_def)
    show ?thesis using 1 2 3 ab(1)[OF k] ab(2) old by simp
  qed
qed

theorem add_child_one_new_board_witness:
  "heap_ok one_child \<and> kids_ok one_child 0 \<and> shape_ok (board_of one_child 0)
   \<and> node_turn (nodes one_child ! 0) = 2
   \<and> distinct (map (board_of one_child) (node_children (nodes one_child ! 0)))
   \<and> node_children (nodes one_child ! 0) = [1]
   \<and> node_children (nodes (add_child AMAF one_child 0) ! 0) = [1, 2]
   \<and> one_cell_apart (board_of (add_child AMAF one_child 0) 0) (board_of (add_child AMAF one_child 0) 2)
   \<and> distinct (map (board_of (add_child AMAF one_child 0)) [1, 2])"
proof -
  have h: "heap_ok one_child" "kids_ok one_child 0" "shape_ok (board_of one_child 0)"
    "node_turn (nodes one_child ! 0) = 1 \<or> node_turn (nodes one_child ! 0) = 2"
    "distinct (map (board_of one_child) (node_children (nodes one_child ! 0)))"
    by code_simp+
  have e: "node_turn (nodes one_child ! 0) = 2" "node_children (nodes one_child ! 0) = [1]"
    "length (nodes one_child) = 2"
    "node_children (nodes (add_child AMAF one_child 0) ! 0) = [1, 2]"
    by code_simp+
  from add_child_one_new_board[OF h, of AMAF] e
  have "one_cell_apart (board_of (add_child AMAF one_child 0) 0) (board_of (add_child AMAF one_child 0) 2)"
    "distinct (map (board_of (add_child AMAF one_child 0)) [1, 2])"
    by auto
  with h e show ?thesis by simp
qed

subsection \<open>The rollout makes one move\<close>

lemma rollout_ply_actions:
  "rollout_ply v rnd st b turn actions moves = (nb, acts, terminal, st') \<Longrightarrow>
   length acts \<le> Suc (length actions)"
  by (auto simp: rollout_ply_def Let_def split: prod.splits option.splits)

lemma rollout_at_most_one_action: "length (snd (fst (rollout v rnd st k))) \<le> 1"
  unfolding rollout_def rollout_loop_once
  by (auto simp: Let_def split: prod.splits dest: rollout_ply_actions)

text \<open>
  Claim C1 says that the rollout keeps making moves until a win or until no move is
  left. The code does not: \<^verbatim>\<open>result\<close> returns \<^verbatim>\<open>None\<close> for "no winner", and the loop tests
  \<^verbatim>\<open>terminal != 0\<close>, which is true for \<^verbatim>\<open>None\<close>. So every rollout returns after its first
  move: it records at most one action, in both files. From a root over the empty board
  it returns \<^verbatim>\<open>None\<close> (counted as a tie) with the single action (0, 0), on a board that has
  no winner and on which moves are left.
\<close>

theorem rollout_stops_after_one_ply:
  "(\<forall>v rnd st k. length (snd (fst (rollout v rnd st k))) \<le> 1)
   \<and> \<not> node_terminal (nodes (init_state AMAF zeros 1) ! 0)
   \<and> (case rollout AMAF (\<lambda>d. 0) (init_state AMAF zeros 1) 0 of
        ((simulation_result, actions), st') \<Rightarrow>
          simulation_result = None \<and> actions = [(0, 0)]
          \<and> \<not> check_terminal AMAF (arrays st' ! 1)
          \<and> fst (get_moves AMAF st' 1 2) \<noteq> [])
   \<and> (case rollout RAVE (\<lambda>d. 0) (init_state RAVE zeros 1) 0 of
        ((simulation_result, actions), st') \<Rightarrow>
          simulation_result = None \<and> actions = [(0, 0)]
          \<and> \<not> check_terminal RAVE (arrays st' ! 1)
          \<and> fst (get_moves RAVE st' 1 2) \<noteq> [])"
proof -
  have 1: "\<forall>v rnd st k. length (snd (fst (rollout v rnd st k))) \<le> 1"
    using rollout_at_most_one_action by blast
  have 2: "\<not> node_terminal (nodes (init_state AMAF zeros 1) ! 0)" by code_simp
  have 3: "(case rollout AMAF (\<lambda>d. 0) (init_state AMAF zeros 1) 0 of
        ((simulation_result, actions), st') \<Rightarrow>
          simulation_result = None \<and> actions = [(0, 0)]
          \<and> \<not> check_terminal AMAF (arrays st' ! 1)
          \<and> fst (get_moves AMAF st' 1 2) \<noteq> [])" by code_simp
  have 4: "(case rollout RAVE (\<lambda>d. 0) (init_state RAVE zeros 1) 0 of
        ((simulation_result, actions), st') \<Rightarrow>
          simulation_result = None \<and> actions = [(0, 0)]
          \<and> \<not> check_terminal RAVE (arrays st' ! 1)
          \<and> fst (get_moves RAVE st' 1 2) \<noteq> [])" by code_simp
  show ?thesis using 1 2 3 4 by blast
qed

subsection \<open>Whose mark an expansion writes\<close>

text \<open>
  Claim C2 says that the cell written by an expansion holds the mark of the child's stored
  turn, the opposite of the parent's stored turn. The RAVE file does that. The AMAF file
  writes the parent's stored turn (\<^verbatim>\<open>tmp[j, i] = self.turn\<close>) and stores the opposite in
  the child: from the root that \<^verbatim>\<open>main_AMAF.py\<close> builds (stored turn 2) the child's board
  gets the mark 2 in cell (0, 0) and the child's stored turn is 1, where the RAVE file
  writes the mark 1.
\<close>

theorem add_child_mark_amaf:
  "node_turn (nodes one_child ! 0) = 2
   \<and> node_children (nodes one_child ! 0) = [1]
   \<and> get_action (board_of one_child 0) (board_of one_child 1) = Some (0, 0)
   \<and> cell (board_of one_child 0) 0 0 = 0
   \<and> cell (board_of one_child 1) 0 0 = 2
   \<and> node_turn (nodes one_child ! 1) = 1
   \<and> node_turn (nodes one_child_rave ! 0) = 2
   \<and> node_children (nodes one_child_rave ! 0) = [1]
   \<and> get_action (board_of one_child_rave 0) (board_of one_child_rave 1) = Some (0, 0)
   \<and> cell (board_of one_child_rave 1) 0 0 = 1
   \<and> node_turn (nodes one_child_rave ! 1) = 1"
  by code_simp

subsection \<open>Frames and invariants of the search operations\<close>

lemma arrays_grow_refl: "arrays_grow st st"
  by (simp add: arrays_grow_def)

lemma arrays_grow_trans: "arrays_grow st st1 \<Longrightarrow> arrays_grow st1 st2 \<Longrightarrow> arrays_grow st st2"
  by (auto simp: arrays_grow_def)

lemma arrays_grow_copy: "arrays_grow st (snd (copy_array st a))"
  by (simp add: arrays_grow_def copy_array_def)

lemma arrays_grow_copy_write:
  "arrays_grow st (write_cell (snd (copy_array st a)) (fst (copy_array st a)) j i m)"
  by (simp add: arrays_grow_def copy_array_def write_cell_def)

lemma apply_move_to_board_grow: "arrays_grow st (snd (apply_move_to_board st a i turn))"
  using arrays_grow_copy[of st a] arrays_grow_copy_write[of st a]
  by (auto simp: apply_move_to_board_def Let_def split: option.splits prod.splits)

lemma get_moves_cols_grow: "arrays_grow st (snd (get_moves_cols v st a turn cols))"
proof (induction cols arbitrary: st)
  case Nil
  show ?case by (simp add: arrays_grow_refl)
next
  case (Cons i rest)
  show ?case
  proof (cases "cell (arrays st ! a) 5 i = 0")
    case False
    then show ?thesis using Cons.IH[of st] by simp
  next
    case True
    show ?thesis
    proof (cases v)
      case AMAF
      obtain nb st1 where a1: "apply_move_to_board st a i turn = (nb, st1)"
        by (cases "apply_move_to_board st a i turn")
      then have "arrays_grow st st1" using apply_move_to_board_grow[of st a i turn] by simp
      from arrays_grow_trans[OF this Cons.IH[of st1]] a1 True AMAF
      show ?thesis by (auto simp: Let_def split: prod.splits)
    next
      case RAVE
      show ?thesis
      proof (cases "find (\<lambda>j. cell (arrays st ! a) j i = 0) [0..<6]")
        case None
        then show ?thesis using True RAVE Cons.IH[of st] by simp
      next
        case (Some j)
        obtain tmp st1 where c: "copy_array st a = (tmp, st1)" by (cases "copy_array st a")
        have "arrays_grow st (write_cell st1 tmp j i turn)"
          using arrays_grow_copy_write[of st a j i turn] c by simp
        from arrays_grow_trans[OF this Cons.IH[of "write_cell st1 tmp j i turn"]] c True RAVE Some
        show ?thesis by (auto simp: Let_def split: prod.splits)
      qed
    qed
  qed
qed

lemma choice_grow: "arrays_grow st (snd (choice rnd st ms))"
  by (simp add: arrays_grow_def choice_def)

lemma rollout_grow: "arrays_grow st (snd (rollout v rnd st k))"
proof -
  let ?t = "rollout_flip v (node_turn (nodes st ! k))"
  let ?b = "node_board (nodes st ! k)"
  obtain ms st1 where g: "get_moves v st ?b ?t = (ms, st1)" by (cases "get_moves v st ?b ?t")
  then have 1: "arrays_grow st st1"
    using get_moves_cols_grow[of st v ?b ?t "[0..<7]"] by (simp add: get_moves_def)
  have 2: "arrays_grow st (snd (choice rnd st1 ms))"
    using arrays_grow_trans[OF 1 choice_grow] .
  show ?thesis
    unfolding rollout_def rollout_loop_once
    using g 1 2 by (auto simp: Let_def rollout_ply_def arrays_grow_refl split: prod.splits)
qed

lemma same_shape_refl: "same_shape st st"
  by (simp add: same_shape_def)

lemma same_shape_trans: "same_shape st st1 \<Longrightarrow> same_shape st1 st2 \<Longrightarrow> same_shape st st2"
  by (simp add: same_shape_def)

lemma visits_kept_refl: "visits_kept st st"
  by (simp add: visits_kept_def same_shape_refl)

lemma visits_kept_trans: "visits_kept st st1 \<Longrightarrow> visits_kept st1 st2 \<Longrightarrow> visits_kept st st2"
  unfolding visits_kept_def using same_shape_trans[of st st1 st2]
  by (auto simp: same_shape_def)

lemma nth_update_cases: "xs[c := x] ! i = (if i = c \<and> c < length xs then x else xs ! i)"
  by (cases "c < length xs") (auto simp: nth_list_update list_update_beyond)

lemma rave_bump_kept:
  "visits_kept st (st\<lparr>nodes := (nodes st)[c := (nodes st ! c)\<lparr>rave_q := x, rave_n := y\<rparr>]\<rparr>)"
  by (simp add: visits_kept_def same_shape_def nth_update_cases)

lemma rave_children_kept: "visits_kept st (rave_children won k a cs st)"
proof (induction cs arbitrary: st)
  case Nil
  show ?case by (simp add: visits_kept_refl)
next
  case (Cons c cs)
  show ?case
    using visits_kept_trans[OF rave_bump_kept Cons.IH] Cons.IH[of st]
    by simp
qed

lemma rave_update_kept: "visits_kept st (rave_update won k acts st)"
proof (induction acts arbitrary: st)
  case Nil
  show ?case by (simp add: visits_kept_refl)
next
  case (Cons a rest)
  show ?case
    using visits_kept_trans[OF rave_children_kept Cons.IH] by simp
qed

lemma backprop_node_effect:
  assumes "k < length (nodes st)"
  shows "same_shape st (backprop_node v st k winner acts)"
    and "\<forall>i<length (nodes st). node_n (nodes (backprop_node v st k winner acts) ! i)
            = node_n (nodes st ! i) + (if i = k then 1 else 0)"
proof -
  let ?won = "is_winner (node_turn (nodes st ! k)) winner"
  let ?st1 = "st\<lparr>nodes := (nodes st)[k := (nodes st ! k)
                  \<lparr>node_q := node_q (nodes st ! k) + (if ?won then 1 else 0),
                   node_n := node_n (nodes st ! k) + 1\<rparr>]\<rparr>"
  have s1: "same_shape st ?st1" by (simp add: same_shape_def nth_update_cases)
  have n1: "\<forall>i<length (nodes st). node_n (nodes ?st1 ! i) = node_n (nodes st ! i) + (if i = k then 1 else 0)"
    using assms by (simp add: nth_update_cases)
  show "same_shape st (backprop_node v st k winner acts)"
  proof (cases v)
    case AMAF
    then show ?thesis using s1 by (simp add: backprop_node_def Let_def same_shape_def)
  next
    case RAVE
    have "visits_kept ?st1 (rave_update ?won k acts ?st1)" by (rule rave_update_kept)
    then have "same_shape st (rave_update ?won k acts ?st1)"
      using same_shape_trans[OF s1] by (simp add: visits_kept_def)
    then show ?thesis using RAVE by (simp add: backprop_node_def Let_def)
  qed
  show "\<forall>i<length (nodes st). node_n (nodes (backprop_node v st k winner acts) ! i)
            = node_n (nodes st ! i) + (if i = k then 1 else 0)"
  proof (cases v)
    case AMAF
    then show ?thesis using n1 by (simp add: backprop_node_def Let_def)
  next
    case RAVE
    have "visits_kept ?st1 (rave_update ?won k acts ?st1)" by (rule rave_update_kept)
    then have "\<forall>i<length (nodes st). node_n (nodes (rave_update ?won k acts ?st1) ! i) = node_n (nodes ?st1 ! i)"
      by (simp add: visits_kept_def)
    then show ?thesis using RAVE n1 by (simp add: backprop_node_def Let_def)
  qed
qed

lemma same_shape_sym: "same_shape st st' \<Longrightarrow> same_shape st' st"
  by (simp add: same_shape_def)

lemma parents_ok_shape: "same_shape st st' \<Longrightarrow> parents_ok st \<Longrightarrow> parents_ok st'"
  by (auto simp: same_shape_def parents_ok_def)

lemma anc_shape_imp: "anc st k a \<Longrightarrow> same_shape st st' \<Longrightarrow> anc st' k a"
proof (induction rule: anc.induct)
  case (anc_self k)
  show ?case by (rule anc.anc_self)
next
  case (anc_up k p a)
  then have "k < length (nodes st')" "node_parent (nodes st' ! k) = Some p"
    by (simp_all add: same_shape_def)
  then show ?case using anc_up by (auto intro: anc.anc_up)
qed

lemma anc_shape: "same_shape st st' \<Longrightarrow> anc st' k a \<longleftrightarrow> anc st k a"
  using anc_shape_imp same_shape_sym by blast

lemma anc_le: "anc st k a \<Longrightarrow> parents_ok st \<Longrightarrow> a \<le> k"
proof (induction rule: anc.induct)
  case (anc_self k)
  show ?case by simp
next
  case (anc_up k p a)
  have "k \<noteq> 0" using anc_up.hyps(2) anc_up.prems by (cases "k = 0") (auto simp: parents_ok_def)
  then obtain p' where "p' < k" "node_parent (nodes st ! k) = Some p'"
    using anc_up.hyps(1) anc_up.prems by (auto simp: parents_ok_def)
  then have "p < k" using anc_up.hyps(2) by simp
  then show ?case using anc_up.IH[OF anc_up.prems] by simp
qed

lemma anc_root: "parents_ok st \<Longrightarrow> k < length (nodes st) \<Longrightarrow> anc st k 0"
proof (induction k rule: less_induct)
  case (less k)
  show ?case
  proof (cases "k = 0")
    case True
    then show ?thesis by (simp add: anc.anc_self)
  next
    case False
    then obtain p where p: "p < k" "node_parent (nodes st ! k) = Some p"
      using less.prems by (auto simp: parents_ok_def)
    then have "anc st p 0" using less.IH[of p] less.prems by simp
    then show ?thesis using p less.prems(2) by (auto intro: anc.anc_up)
  qed
qed

lemma anc_parent:
  "anc st k a \<Longrightarrow> a < length (nodes st) \<Longrightarrow> node_parent (nodes st ! a) = Some p \<Longrightarrow> anc st k p"
proof (induction rule: anc.induct)
  case (anc_self k)
  then show ?case by (auto intro: anc.anc_up anc.anc_self)
next
  case (anc_up k p' a)
  then show ?case by (auto intro: anc.anc_up)
qed

lemma anc_cases_up:
  "anc st k a \<longleftrightarrow> a = k \<or> (k < length (nodes st) \<and> (\<exists>p. node_parent (nodes st ! k) = Some p \<and> anc st p a))"
  by (auto intro: anc.intros elim: anc.cases)

lemma backpropagate_effect:
  assumes "parents_ok st" "k < length (nodes st)"
  shows "\<exists>st'. backpropagate v st k winner acts = Some st' \<and> same_shape st st'
           \<and> (\<forall>i<length (nodes st). node_n (nodes st' ! i)
                  = node_n (nodes st ! i) + (if anc st k i then 1 else 0))"
  using assms
proof (induction k arbitrary: st rule: less_induct)
  case (less k)
  let ?st1 = "backprop_node v st k winner acts"
  note e = backprop_node_effect[OF less.prems(2), of v winner acts]
  have par: "node_parent (nodes ?st1 ! k) = node_parent (nodes st ! k)"
    using e(1) less.prems(2) by (simp add: same_shape_def)
  show ?case
  proof (cases "node_parent (nodes st ! k)")
    case None
    have "backpropagate v st k winner acts = Some ?st1"
      by (subst backpropagate.simps) (simp add: Let_def par None)
    moreover have "anc st k i \<longleftrightarrow> i = k" for i
      using None by (subst anc_cases_up) auto
    ultimately show ?thesis using e by simp
  next
    case (Some p)
    have "k \<noteq> 0" using Some less.prems by (cases "k = 0") (auto simp: parents_ok_def)
    then have pk: "p < k" using Some less.prems by (auto simp: parents_ok_def)
    have p1: "parents_ok ?st1" using parents_ok_shape[OF e(1) less.prems(1)] .
    have l1: "length (nodes ?st1) = length (nodes st)" using e(1) by (simp add: same_shape_def)
    have pl: "p < length (nodes ?st1)" using pk less.prems(2) l1 by simp
    from less.IH[OF pk p1 pl] obtain st' where
      b: "backpropagate v ?st1 p winner acts = Some st'" and s: "same_shape ?st1 st'"
      and n: "\<forall>i<length (nodes ?st1). node_n (nodes st' ! i)
                  = node_n (nodes ?st1 ! i) + (if anc ?st1 p i then 1 else 0)" by blast
    have "backpropagate v st k winner acts = Some st'"
      by (subst backpropagate.simps) (simp add: Let_def par Some b)
    moreover have "same_shape st st'" using same_shape_trans[OF e(1) s] .
    moreover have "node_n (nodes st' ! i) = node_n (nodes st ! i) + (if anc st k i then 1 else 0)"
      if i: "i < length (nodes st)" for i
    proof -
      have a1: "anc ?st1 p i \<longleftrightarrow> anc st p i" using anc_shape[OF e(1)] .
      have a2: "anc st k i \<longleftrightarrow> i = k \<or> anc st p i"
        using Some less.prems(2) by (subst anc_cases_up) auto
      have a3: "\<not> (i = k \<and> anc st p i)" using anc_le[OF _ less.prems(1), of p i] pk by auto
      show ?thesis using n i l1 e(2) a1 a2 a3 by auto
    qed
    ultimately show ?thesis by blast
  qed
qed

lemma tree_okD:
  assumes "tree_ok X st" "k < length (nodes st)" "c \<in> set (node_children (nodes st ! k))"
  shows "k < c" "c < length (nodes st)" "node_parent (nodes st ! c) = Some k"
    "node_n (nodes st ! c) \<le> node_n (nodes st ! k)" "c \<notin> X \<Longrightarrow> 0 < node_n (nodes st ! c)"
proof -
  from assms(1) have "\<forall>k<length (nodes st). \<forall>c\<in>set (node_children (nodes st ! k)).
           k < c \<and> c < length (nodes st) \<and> node_parent (nodes st ! c) = Some k
           \<and> node_n (nodes st ! c) \<le> node_n (nodes st ! k)
           \<and> (c \<notin> X \<longrightarrow> 0 < node_n (nodes st ! c))"
    unfolding tree_ok_def by (elim conjE)
  with assms(2,3) have *: "k < c \<and> c < length (nodes st) \<and> node_parent (nodes st ! c) = Some k
           \<and> node_n (nodes st ! c) \<le> node_n (nodes st ! k)
           \<and> (c \<notin> X \<longrightarrow> 0 < node_n (nodes st ! c))" by blast
  from * show "k < c" by (elim conjE)
  from * show "c < length (nodes st)" by (elim conjE)
  from * show "node_parent (nodes st ! c) = Some k" by (elim conjE)
  from * show "node_n (nodes st ! c) \<le> node_n (nodes st ! k)" by (elim conjE)
  from * show "c \<notin> X \<Longrightarrow> 0 < node_n (nodes st ! c)" by (elim conjE) (erule mp)
qed

lemma uct_defined:
  assumes "0 < node_n child" "0 < node_n nd"
  shows "\<exists>u. uct nd child = Inr (Some u)"
  using assms by (simp add: uct_def)

lemma get_amaf_value_defined:
  assumes "node_parent (nodes st ! c) = Some p"
  shows "\<exists>a. get_amaf_value st c = Inr a"
proof (cases "get_action (board_of st p) (board_of st c)")
  case None
  then show ?thesis using assms by (simp add: get_amaf_value_def)
next
  case (Some a)
  show ?thesis
  proof (cases "map_of (amaf_stats st) a")
    case None
    then show ?thesis using assms Some by (simp add: get_amaf_value_def)
  next
    case (Some qn)
    then show ?thesis using assms \<open>get_action (board_of st p) (board_of st c) = Some a\<close>
      by (cases qn) (simp add: get_amaf_value_def)
  qed
qed

lemma combined_value_defined:
  assumes "0 < node_n (nodes st ! c)" "0 < node_n (nodes st ! k)"
    and "node_parent (nodes st ! c) = Some p" and "0 \<le> t"
  shows "\<exists>x. combined_value v t st k c = Inr (Some x)"
proof -
  from uct_defined[OF assms(1,2)] obtain u where u: "uct (nodes st ! k) (nodes st ! c) = Inr (Some u)"
    by blast
  show ?thesis
  proof (cases v)
    case AMAF
    from get_amaf_value_defined[OF assms(3)] obtain a where "get_amaf_value st c = Inr a" by blast
    then show ?thesis using AMAF u by (simp add: combined_value_def)
  next
    case RAVE
    have pos: "0 < 3 * real (node_n (nodes st ! k)) + t" using assms(2,4) by simp
    then have ne: "3 * real (node_n (nodes st ! k)) + t \<noteq> 0" by simp
    have "0 \<le> t / (3 * real (node_n (nodes st ! k)) + t)" using assms(4) pos by simp
    then have nn: "\<not> t / (3 * real (node_n (nodes st ! k)) + t) < 0" by simp
    show ?thesis unfolding combined_value_def u using RAVE ne nn
      by (simp only: sum.case variant.case if_False Let_def option.map) blast
  qed
qed

lemma select_loop_ok:
  assumes "\<forall>c\<in>set cs. \<exists>x. combined_value v t st k c = Inr (Some x)"
  shows "\<exists>r. select_loop v t st k cs best = Inr r
            \<and> (r = best \<or> (\<exists>x c. r = Some (x, c) \<and> c \<in> set cs))"
  using assms
proof (induction cs arbitrary: best)
  case Nil
  show ?case by simp
next
  case (Cons c cs)
  from Cons.prems obtain x where x: "combined_value v t st k c = Inr (Some x)" by auto
  have rest: "\<forall>c\<in>set cs. \<exists>x. combined_value v t st k c = Inr (Some x)" using Cons.prems by simp
  show ?case
  proof (cases "best = None \<or> (\<exists>bv bn. best = Some (bv, bn) \<and> x > bv)")
    case True
    then have "select_loop v t st k (c # cs) best = select_loop v t st k cs (Some (x, c))"
      using x by (auto split: option.splits)
    with Cons.IH[OF rest, of "Some (x, c)"] show ?thesis by auto
  next
    case False
    then have "select_loop v t st k (c # cs) best = select_loop v t st k cs best"
      using x by (auto split: option.splits)
    with Cons.IH[OF rest, of best] show ?thesis by auto
  qed
qed

lemma select_best_ok:
  assumes "\<forall>c\<in>set (node_children (nodes st ! k)). \<exists>x. combined_value v t st k c = Inr (Some x)"
  shows "select_best v t st k = Inr k
         \<or> (\<exists>c\<in>set (node_children (nodes st ! k)). select_best v t st k = Inr c)"
proof -
  from select_loop_ok[OF assms, of None] obtain r where
    r: "select_loop v t st k (node_children (nodes st ! k)) None = Inr r"
    "r = None \<or> (\<exists>x c. r = Some (x, c) \<and> c \<in> set (node_children (nodes st ! k)))" by blast
  then show ?thesis by (auto simp: select_best_def)
qed

lemma scores_defined:
  assumes "tree_ok {} st" "0 \<le> t" "k < length (nodes st)" "c \<in> set (node_children (nodes st ! k))"
  shows "0 < node_n (nodes st ! c)" "0 < node_n (nodes st ! k)"
    "\<exists>x. combined_value v t st k c = Inr (Some x)"
proof -
  note d = tree_okD[OF assms(1,3,4)]
  show 1: "0 < node_n (nodes st ! c)" using d(5) by simp
  show 2: "0 < node_n (nodes st ! k)" using 1 d(4) by simp
  show "\<exists>x. combined_value v t st k c = Inr (Some x)"
    by (rule combined_value_defined[OF 1 2 d(3) assms(2)])
qed

lemma select_walk_ok:
  assumes "tree_ok {} st" "0 \<le> t" "k < length (nodes st)"
  shows "\<exists>nd<length (nodes st). select_walk v t st k = Some (Inr nd)"
  using assms(3)
proof (induction "length (nodes st) - k" arbitrary: k rule: less_induct)
  case less
  show ?case
  proof (cases "fully_expanded st k")
    case False
    then have "select_walk v t st k = Some (Inr k)" by (subst select_walk.simps) simp
    then show ?thesis using less.prems by blast
  next
    case True
    have "\<forall>c\<in>set (node_children (nodes st ! k)). \<exists>x. combined_value v t st k c = Inr (Some x)"
      using scores_defined(3)[OF assms(1,2) less.prems] by blast
    from select_best_ok[OF this] show ?thesis
    proof
      assume "select_best v t st k = Inr k"
      then have "select_walk v t st k = Some (Inr k)" using True by (subst select_walk.simps) simp
      then show ?thesis using less.prems by blast
    next
      assume "\<exists>c\<in>set (node_children (nodes st ! k)). select_best v t st k = Inr c"
      then obtain c where c: "c \<in> set (node_children (nodes st ! k))" "select_best v t st k = Inr c"
        by blast
      note d = tree_okD[OF assms(1) less.prems c(1)]
      have "select_walk v t st k = select_walk v t st c"
        using True c(2) d(1) by (subst select_walk.simps) simp
      moreover have "\<exists>nd<length (nodes st). select_walk v t st c = Some (Inr nd)"
        using less.hyps[of c] d(1,2) less.prems by simp
      ultimately show ?thesis by simp
    qed
  qed
qed

lemma heap_ok_iff: "heap_ok st \<longleftrightarrow> (\<forall>i<length (nodes st). node_board (nodes st ! i) < length (arrays st))"
  by (simp add: heap_ok_def list_all_length)

lemma tree_ok_kids: "tree_ok X st \<Longrightarrow> k < length (nodes st) \<Longrightarrow> kids_ok st k"
  unfolding kids_ok_def list_all_iff using tree_okD(2)[of X st k] by blast

lemma tree_ok_heap: "tree_ok X st \<Longrightarrow> heap_ok st"
  by (simp add: tree_ok_def)

lemma tree_ok_parents: "tree_ok X st \<Longrightarrow> parents_ok st"
  by (simp add: tree_ok_def)

lemma tree_okI:
  assumes "parents_ok st" "heap_ok st"
    and "\<And>k c. k < length (nodes st) \<Longrightarrow> c \<in> set (node_children (nodes st ! k)) \<Longrightarrow>
           k < c \<and> c < length (nodes st) \<and> node_parent (nodes st ! c) = Some k
           \<and> node_n (nodes st ! c) \<le> node_n (nodes st ! k)
           \<and> (c \<notin> X \<longrightarrow> 0 < node_n (nodes st ! c))"
  shows "tree_ok X st"
  unfolding tree_ok_def using assms by blast

lemma tree_ok_mono: "tree_ok X st \<Longrightarrow> X \<subseteq> Y \<Longrightarrow> tree_ok Y st"
proof (rule tree_okI)
  assume a: "tree_ok X st" "X \<subseteq> Y"
  show "parents_ok st" "heap_ok st" using a(1) by (simp_all add: tree_ok_def)
  fix k c assume kc: "k < length (nodes st)" "c \<in> set (node_children (nodes st ! k))"
  note d = tree_okD[OF a(1) kc]
  show "k < c \<and> c < length (nodes st) \<and> node_parent (nodes st ! c) = Some k
           \<and> node_n (nodes st ! c) \<le> node_n (nodes st ! k)
           \<and> (c \<notin> Y \<longrightarrow> 0 < node_n (nodes st ! c))"
    using d(1-4) d(5) a(2) by blast
qed

text \<open>Exhausted expansion: only the expanded flag of one node changes.\<close>

lemma exhausted_nth:
  assumes "exhausted v st nd cols st1" "i < length (nodes st)"
  shows "length (nodes st1) = length (nodes st)"
    "node_parent (nodes st1 ! i) = node_parent (nodes st ! i)"
    "node_board (nodes st1 ! i) = node_board (nodes st ! i)"
    "node_turn (nodes st1 ! i) = node_turn (nodes st ! i)"
    "node_children (nodes st1 ! i) = node_children (nodes st ! i)"
    "node_n (nodes st1 ! i) = node_n (nodes st ! i)"
proof -
  have n: "nodes st1 = (nodes st)[nd := (nodes st ! nd)\<lparr>node_expanded := True\<rparr>]"
    using assms(1) by (simp add: exhausted_def)
  show "length (nodes st1) = length (nodes st)"
    "node_parent (nodes st1 ! i) = node_parent (nodes st ! i)"
    "node_board (nodes st1 ! i) = node_board (nodes st ! i)"
    "node_turn (nodes st1 ! i) = node_turn (nodes st ! i)"
    "node_children (nodes st1 ! i) = node_children (nodes st ! i)"
    "node_n (nodes st1 ! i) = node_n (nodes st ! i)"
    unfolding n by (simp_all add: nth_update_cases)
qed

lemma same_tables_heap:
  assumes "same_tables st st1" "heap_ok st" "length (nodes st1) = length (nodes st)"
    and "\<And>i. i < length (nodes st) \<Longrightarrow> node_board (nodes st1 ! i) = node_board (nodes st ! i)"
  shows "heap_ok st1"
proof -
  have "length (arrays st) \<le> length (arrays st1)"
    using assms(1) by (auto simp: same_tables_def prefix_def)
  then show ?thesis using assms(2-4) unfolding heap_ok_iff by fastforce
qed

lemma exhausted_tree_ok:
  assumes "tree_ok X st" "exhausted v st nd cols st1" "same_tables st st1"
  shows "tree_ok X st1"
proof (rule tree_okI)
  note e = exhausted_nth[OF assms(2)]
  have len: "length (nodes st1) = length (nodes st)"
    using assms(2) by (simp add: exhausted_def)
  have po: "parents_ok st" using assms(1) by (rule tree_ok_parents)
  then have ne: "0 < length (nodes st)" by (simp add: parents_ok_def)
  show "parents_ok st1"
    unfolding parents_ok_def
  proof (intro conjI allI impI)
    show "nodes st1 \<noteq> []" using len ne by auto
    show "node_parent (nodes st1 ! 0) = None" using e(2)[OF ne] po by (simp add: parents_ok_def)
    fix k assume k: "k < length (nodes st1)" "0 < k"
    then have kl: "k < length (nodes st)" using len by simp
    from po kl k(2) obtain p where "p < k" "node_parent (nodes st ! k) = Some p"
      unfolding parents_ok_def by blast
    then show "\<exists>p<k. node_parent (nodes st1 ! k) = Some p" using e(2)[OF kl] by auto
  qed
  show "heap_ok st1"
    using same_tables_heap[OF assms(3) tree_ok_heap[OF assms(1)] len] e(3) by blast
  fix k c assume kc: "k < length (nodes st1)" "c \<in> set (node_children (nodes st1 ! k))"
  then have kl: "k < length (nodes st)" using len by simp
  with kc(2) have cc: "c \<in> set (node_children (nodes st ! k))" using e(5)[OF kl] by simp
  note d = tree_okD[OF assms(1) kl cc]
  show "k < c \<and> c < length (nodes st1) \<and> node_parent (nodes st1 ! c) = Some k
           \<and> node_n (nodes st1 ! c) \<le> node_n (nodes st1 ! k)
           \<and> (c \<notin> X \<longrightarrow> 0 < node_n (nodes st1 ! c))"
    using d(1-4) d(5) len e(2)[OF d(2)] e(6)[OF d(2)] e(6)[OF kl] by simp
qed

lemma appended_nth:
  assumes "appended v st nd j i st1" "nd < length (nodes st)"
  shows "length (nodes st1) = Suc (length (nodes st))"
    and "\<And>m. m < length (nodes st) \<Longrightarrow> node_parent (nodes st1 ! m) = node_parent (nodes st ! m)"
    and "\<And>m. m < length (nodes st) \<Longrightarrow> node_board (nodes st1 ! m) = node_board (nodes st ! m)"
    and "\<And>m. m < length (nodes st) \<Longrightarrow> node_turn (nodes st1 ! m) = node_turn (nodes st ! m)"
    and "\<And>m. m < length (nodes st) \<Longrightarrow> node_n (nodes st1 ! m) = node_n (nodes st ! m)"
    and "\<And>m. m < length (nodes st) \<Longrightarrow> node_children (nodes st1 ! m) =
            (if m = nd then node_children (nodes st ! nd) @ [length (nodes st)]
             else node_children (nodes st ! m))"
    and "nodes st1 ! length (nodes st) =
           child_node v nd (node_turn (nodes st ! nd)) (length (arrays st1) - 1) (drop_board v st nd j i)"
proof -
  let ?new = "child_node v nd (node_turn (nodes st ! nd)) (length (arrays st1) - 1) (drop_board v st nd j i)"
  let ?upd = "(nodes st)[nd := (nodes st ! nd)\<lparr>node_children := node_children (nodes st ! nd) @ [length (nodes st)]\<rparr>]"
  have n: "nodes st1 = ?upd @ [?new]" using assms(1) by (simp add: appended_def)
  have lu: "length ?upd = length (nodes st)" by simp
  show "length (nodes st1) = Suc (length (nodes st))" unfolding n by simp
  show "nodes st1 ! length (nodes st) = ?new" unfolding n by (metis lu nth_append_length)
  have old: "nodes st1 ! m = ?upd ! m" if "m < length (nodes st)" for m
    unfolding n using that by (simp add: nth_append)
  show "\<And>m. m < length (nodes st) \<Longrightarrow> node_parent (nodes st1 ! m) = node_parent (nodes st ! m)"
    "\<And>m. m < length (nodes st) \<Longrightarrow> node_board (nodes st1 ! m) = node_board (nodes st ! m)"
    "\<And>m. m < length (nodes st) \<Longrightarrow> node_turn (nodes st1 ! m) = node_turn (nodes st ! m)"
    "\<And>m. m < length (nodes st) \<Longrightarrow> node_n (nodes st1 ! m) = node_n (nodes st ! m)"
    "\<And>m. m < length (nodes st) \<Longrightarrow> node_children (nodes st1 ! m) =
            (if m = nd then node_children (nodes st ! nd) @ [length (nodes st)]
             else node_children (nodes st ! m))"
    using assms(2) by (simp_all add: old nth_update_cases)
qed

lemma child_node_fields:
  "node_parent (child_node v k turn a nb) = Some k"
  "node_n (child_node v k turn a nb) = 0"
  "node_children (child_node v k turn a nb) = []"
  "node_board (child_node v k turn a nb) = a"
  by (simp_all add: child_node_def)

lemma appended_tree_ok:
  assumes "tree_ok {} st" "appended v st nd j i st1" "same_tables st st1" "nd < length (nodes st)"
  shows "tree_ok {length (nodes st)} st1"
proof (rule tree_okI)
  let ?L = "length (nodes st)"
  note a = appended_nth[OF assms(2,4)]
  have po: "parents_ok st" using assms(1) by (rule tree_ok_parents)
  then have ne: "0 < ?L" by (simp add: parents_ok_def)
  have newp: "node_parent (nodes st1 ! ?L) = Some nd" "node_n (nodes st1 ! ?L) = 0"
    "node_children (nodes st1 ! ?L) = []" "node_board (nodes st1 ! ?L) = length (arrays st1) - 1"
    unfolding a(7) by (simp_all add: child_node_fields)
  show "parents_ok st1"
    unfolding parents_ok_def
  proof (intro conjI allI impI)
    show "nodes st1 \<noteq> []" using a(1) by auto
    show "node_parent (nodes st1 ! 0) = None" using a(2)[OF ne] po by (simp add: parents_ok_def)
    fix k assume k: "k < length (nodes st1)" "0 < k"
    show "\<exists>p<k. node_parent (nodes st1 ! k) = Some p"
    proof (cases "k < ?L")
      case True
      from po True k(2) obtain p where "p < k" "node_parent (nodes st ! k) = Some p"
        unfolding parents_ok_def by blast
      then show ?thesis using a(2)[OF True] by auto
    next
      case False
      then have "k = ?L" using k(1) a(1) by simp
      then show ?thesis using newp(1) assms(4) by auto
    qed
  qed
  have grow: "length (arrays st) < length (arrays st1)" using assms(2) by (simp add: appended_def)
  show "heap_ok st1"
    unfolding heap_ok_iff
  proof (intro allI impI)
    fix m assume m: "m < length (nodes st1)"
    show "node_board (nodes st1 ! m) < length (arrays st1)"
    proof (cases "m < ?L")
      case True
      have "node_board (nodes st ! m) < length (arrays st)"
        using tree_ok_heap[OF assms(1)] True by (simp add: heap_ok_iff)
      then show ?thesis using a(3)[OF True] grow by simp
    next
      case False
      then have "m = ?L" using m a(1) by simp
      then show ?thesis using newp(4) grow by simp
    qed
  qed
  fix k c assume kc: "k < length (nodes st1)" "c \<in> set (node_children (nodes st1 ! k))"
  have kl: "k < ?L"
  proof (rule ccontr)
    assume "\<not> k < ?L"
    then have "k = ?L" using kc(1) a(1) by simp
    then show False using kc(2) newp(3) by simp
  qed
  show "k < c \<and> c < length (nodes st1) \<and> node_parent (nodes st1 ! c) = Some k
           \<and> node_n (nodes st1 ! c) \<le> node_n (nodes st1 ! k)
           \<and> (c \<notin> {?L} \<longrightarrow> 0 < node_n (nodes st1 ! c))"
  proof (cases "c = ?L")
    case True
    then have "k = nd" using kc(2) a(6)[OF kl] tree_okD(2)[OF assms(1) kl, of c]
      by (cases "k = nd") auto
    then show ?thesis using True newp(1,2) kl a(1) by simp
  next
    case False
    then have cc: "c \<in> set (node_children (nodes st ! k))"
      using kc(2) a(6)[OF kl] by (cases "k = nd") auto
    note d = tree_okD[OF assms(1) kl cc]
    show ?thesis using d(1-4) d(5) a(1) a(2)[OF d(2)] a(5)[OF d(2)] a(5)[OF kl] by simp
  qed
qed

lemma find_snoc_none:
  "\<forall>x\<in>set xs. \<not> P x \<Longrightarrow> find P (xs @ [y]) = (if P y then Some y else None)"
  by (induction xs) auto

lemma appended_pick:
  assumes "tree_ok {} st" "appended v st nd j i st1" "nd < length (nodes st)"
  shows "pick_unvisited st1 (node_children (nodes st1 ! nd)) = Some (length (nodes st))"
proof -
  note a = appended_nth[OF assms(2,3)]
  have ch: "node_children (nodes st1 ! nd) = node_children (nodes st ! nd) @ [length (nodes st)]"
    using a(6)[OF assms(3)] by simp
  have "\<not> node_n (nodes st1 ! c) = 0" if c: "c \<in> set (node_children (nodes st ! nd))" for c
  proof -
    note d = tree_okD[OF assms(1,3) c]
    show ?thesis using d(5) a(5)[OF d(2)] by simp
  qed
  then have "\<forall>c\<in>set (node_children (nodes st ! nd)). \<not> node_n (nodes st1 ! c) = 0" by blast
  from find_snoc_none[of _ "\<lambda>c. node_n (nodes st1 ! c) = 0", OF this]
  show ?thesis unfolding pick_unvisited_def ch a(7)[symmetric]
    using a(7) by (simp add: child_node_fields)
qed

lemma exhausted_pick:
  assumes "tree_ok {} st" "exhausted v st nd cols st1" "nd < length (nodes st)"
  shows "pick_unvisited st1 (node_children (nodes st1 ! nd)) = None"
proof -
  note e = exhausted_nth[OF assms(2)]
  have "\<not> node_n (nodes st1 ! c) = 0" if c: "c \<in> set (node_children (nodes st ! nd))" for c
  proof -
    note d = tree_okD[OF assms(1,3) c]
    show ?thesis using d(5) e(6)[OF d(2)] by simp
  qed
  then show ?thesis unfolding pick_unvisited_def e(5)[OF assms(3)] find_None_iff by blast
qed

lemma kids_step_refl: "kids_step v st st"
  by (simp add: kids_step_def)

lemma same_tables_refl: "same_tables st st"
  by (simp add: same_tables_def)

lemma visited_pick_none:
  assumes "tree_ok {} st" "nd < length (nodes st)"
  shows "pick_unvisited st (node_children (nodes st ! nd)) = None"
proof -
  have "\<not> node_n (nodes st ! c) = 0" if c: "c \<in> set (node_children (nodes st ! nd))" for c
    using tree_okD(5)[OF assms c] by simp
  then show ?thesis unfolding pick_unvisited_def find_None_iff by blast
qed

lemma exhausted_kids_step:
  assumes "tree_ok {} st" "exhausted v st nd cols st1" "same_tables st st1" "nd < length (nodes st)"
  shows "kids_step v st st1"
proof -
  note e = exhausted_nth[OF assms(2)]
  have ne: "0 < length (nodes st)" using tree_ok_parents[OF assms(1)] by (simp add: parents_ok_def)
  note eb = exhausted_boards[OF tree_ok_heap[OF assms(1)] tree_ok_kids[OF assms(1,4)] assms(3,2)]
  show ?thesis unfolding kids_step_def
    using e(1)[OF ne] e(3)[OF ne] e(4)[OF ne] e(5)[OF ne] eb(1) by simp
qed

lemma appended_kids_step:
  assumes "tree_ok {} st" "appended v st nd j i st1" "same_tables st st1" "nd < length (nodes st)"
    and "i < 7" "lowest_empty (board_of st nd) i j"
  shows "kids_step v st st1"
proof -
  note a = appended_nth[OF assms(2,4)]
  have ne: "0 < length (nodes st)" using tree_ok_parents[OF assms(1)] by (simp add: parents_ok_def)
  note ab = appended_boards[OF tree_ok_heap[OF assms(1)] tree_ok_kids[OF assms(1,4)] assms(3,2)]
  have kids: "node_children (nodes st1 ! 0) = node_children (nodes st ! 0)
        \<or> (\<exists>j i. i < 7 \<and> lowest_empty (board_of st 0) i j
              \<and> node_children (nodes st1 ! 0) = node_children (nodes st ! 0) @ [length (nodes st)]
              \<and> board_of st1 (length (nodes st)) = drop_board v st 0 j i)"
  proof (cases "nd = 0")
    case True
    then show ?thesis using a(6)[OF ne] ab(3) assms(5,6) by auto
  next
    case False
    then show ?thesis using a(6)[OF ne] by simp
  qed
  show ?thesis unfolding kids_step_def
    using a(1) a(3)[OF ne] a(4)[OF ne] ab(1) kids by simp
qed

lemma select_effect:
  assumes "tree_ok {} st" "0 \<le> t"
  shows "\<exists>leaf st1. select v t st 0 = Some (Inr (leaf, st1)) \<and> same_tables st st1
           \<and> kids_step v st st1 \<and> node_n (nodes st1 ! 0) = node_n (nodes st ! 0)
           \<and> (\<forall>l. leaf = Some l \<longrightarrow> l < length (nodes st1) \<and> tree_ok {l} st1)"
proof -
  have ne: "0 < length (nodes st)" using tree_ok_parents[OF assms(1)] by (simp add: parents_ok_def)
  from select_walk_ok[OF assms ne, of v] obtain nd where
    nd: "nd < length (nodes st)" "select_walk v t st 0 = Some (Inr nd)" by blast
  have mono: "tree_ok {nd} st" using tree_ok_mono[OF assms(1)] by simp
  have stay: "?thesis" if s: "add_child v st nd = st" "\<not> node_terminal (nodes st ! nd)"
  proof (cases "node_children (nodes st ! nd) = []")
    case True
    then have "select v t st 0 = Some (Inr (Some nd, st))"
      using nd(2) s by (simp add: select_def Let_def)
    then show ?thesis using same_tables_refl kids_step_refl mono nd(1) by auto
  next
    case False
    then have "select v t st 0 = Some (Inr (None, st))"
      using nd(2) s visited_pick_none[OF assms(1) nd(1)] by (simp add: select_def Let_def)
    then show ?thesis using same_tables_refl kids_step_refl by auto
  qed
  show ?thesis
  proof (cases "node_terminal (nodes st ! nd)")
    case True
    then have "select v t st 0 = Some (Inr (Some nd, st))" using nd(2) by (simp add: select_def)
    then show ?thesis using same_tables_refl kids_step_refl mono nd(1) by auto
  next
    case nt: False
    show ?thesis
    proof (cases "node_expanded (nodes st ! nd)")
      case True
      then have "add_child v st nd = st" by (simp add: add_child_def)
      then show ?thesis using stay nt by simp
    next
      case False
      let ?st1 = "add_child v st nd"
      have e: "?st1 = add_child_cols v st nd [0..<7]" using False by (simp add: add_child_def)
      from add_child_cols_effect[OF tree_ok_heap[OF assms(1)] tree_ok_kids[OF assms(1) nd(1)], of v "[0..<7]"]
      have t: "same_tables st ?st1"
        and d: "exhausted v st nd [0..<7] ?st1
          \<or> (\<exists>j i. i \<in> set [0..<7] \<and> cell (board_of st nd) 5 i = 0 \<and> lowest_empty (board_of st nd) i j
                \<and> appended v st nd j i ?st1)"
        unfolding e by blast+
      from d show ?thesis
      proof
        assume x: "exhausted v st nd [0..<7] ?st1"
        note en = exhausted_nth[OF x]
        have tk: "tree_ok {} ?st1" using exhausted_tree_ok[OF assms(1) x t] .
        have ks: "kids_step v st ?st1" "node_n (nodes ?st1 ! 0) = node_n (nodes st ! 0)"
          using exhausted_kids_step[OF assms(1) x t nd(1)] en(6)[OF ne] by simp_all
        have l1: "nd < length (nodes ?st1)" using en(1)[OF nd(1)] nd(1) by simp
        show ?thesis
        proof (cases "node_children (nodes ?st1 ! nd) = []")
          case True
          then have "select v t st 0 = Some (Inr (Some nd, ?st1))"
            using nd(2) nt by (simp add: select_def Let_def)
          then show ?thesis using t ks l1 tree_ok_mono[OF tk, of "{nd}"] by auto
        next
          case False
          then have "select v t st 0 = Some (Inr (None, ?st1))"
            using nd(2) nt exhausted_pick[OF assms(1) x nd(1)] by (simp add: select_def Let_def)
          then show ?thesis using t ks by auto
        qed
      next
        assume "\<exists>j i. i \<in> set [0..<7] \<and> cell (board_of st nd) 5 i = 0 \<and> lowest_empty (board_of st nd) i j
                \<and> appended v st nd j i ?st1"
        then obtain j i where h: "i < 7" "lowest_empty (board_of st nd) i j" "appended v st nd j i ?st1"
          by auto
        note a = appended_nth[OF h(3) nd(1)]
        have ch: "node_children (nodes ?st1 ! nd) \<noteq> []" using a(6)[OF nd(1)] by simp
        have "select v t st 0 = Some (Inr (Some (length (nodes st)), ?st1))"
          using nd(2) nt ch appended_pick[OF assms(1) h(3) nd(1)] by (simp add: select_def Let_def)
        moreover have "tree_ok {length (nodes st)} ?st1"
          using appended_tree_ok[OF assms(1) h(3) t nd(1)] .
        moreover have "kids_step v st ?st1" "node_n (nodes ?st1 ! 0) = node_n (nodes st ! 0)"
          using appended_kids_step[OF assms(1) h(3) t nd(1) h(1,2)] a(5)[OF ne] by simp_all
        ultimately show ?thesis using t a(1) by auto
      qed
    qed
  qed
qed

lemma arrays_grow_tree_ok:
  assumes "tree_ok X st" "arrays_grow st st1"
  shows "tree_ok X st1"
proof -
  have n: "nodes st1 = nodes st" and p: "prefix (arrays st) (arrays st1)"
    using assms(2) by (simp_all add: arrays_grow_def)
  have "length (arrays st) \<le> length (arrays st1)" using p by (auto simp: prefix_def)
  then have "heap_ok st1" using tree_ok_heap[OF assms(1)] unfolding heap_ok_iff n by fastforce
  moreover have "parents_ok st1" using tree_ok_parents[OF assms(1)] by (simp add: parents_ok_def n)
  ultimately show ?thesis using assms(1) unfolding tree_ok_def n by blast
qed

lemma arrays_grow_boards:
  assumes "heap_ok st" "arrays_grow st st1" "c < length (nodes st)"
  shows "board_of st1 c = board_of st c"
proof -
  have n: "nodes st1 = nodes st" and p: "prefix (arrays st) (arrays st1)"
    using assms(2) by (simp_all add: arrays_grow_def)
  show ?thesis
    by (rule board_of_keep[OF assms(1,3) p]) (simp_all add: n assms(3))
qed

lemma same_shape_boards:
  assumes "same_shape st st1" "c < length (nodes st)"
  shows "board_of st1 c = board_of st c"
  using assms by (simp add: same_shape_def board_of_def)

lemma backprop_tree_ok:
  assumes "tree_ok {leaf} st" "leaf < length (nodes st)"
    and "same_shape st st3"
    and "\<forall>i<length (nodes st). node_n (nodes st3 ! i) = node_n (nodes st ! i) + (if anc st leaf i then 1 else 0)"
  shows "tree_ok {} st3"
proof (rule tree_okI)
  have len: "length (nodes st3) = length (nodes st)" using assms(3) by (simp add: same_shape_def)
  show "parents_ok st3" using parents_ok_shape[OF assms(3) tree_ok_parents[OF assms(1)]] .
  show "heap_ok st3"
    using tree_ok_heap[OF assms(1)] assms(3) unfolding heap_ok_iff by (simp add: same_shape_def)
  fix k c assume kc: "k < length (nodes st3)" "c \<in> set (node_children (nodes st3 ! k))"
  then have kl: "k < length (nodes st)" using len by simp
  have "node_children (nodes st3 ! k) = node_children (nodes st ! k)"
    using assms(3) kl by (simp add: same_shape_def)
  with kc(2) have cc: "c \<in> set (node_children (nodes st ! k))" by simp
  note d = tree_okD[OF assms(1) kl cc]
  have pc: "node_parent (nodes st3 ! c) = Some k" using assms(3) d(2,3) by (simp add: same_shape_def)
  have nc: "node_n (nodes st3 ! c) = node_n (nodes st ! c) + (if anc st leaf c then 1 else 0)"
    using assms(4) d(2) by blast
  have nk: "node_n (nodes st3 ! k) = node_n (nodes st ! k) + (if anc st leaf k then 1 else 0)"
    using assms(4) kl by blast
  have up: "anc st leaf c \<Longrightarrow> anc st leaf k" using anc_parent[OF _ d(2,3)] .
  have le: "node_n (nodes st3 ! c) \<le> node_n (nodes st3 ! k)"
    unfolding nc nk using d(4) up by auto
  have pos: "0 < node_n (nodes st3 ! c)"
  proof (cases "c = leaf")
    case True
    then show ?thesis unfolding nc using anc.anc_self[of st leaf] by simp
  next
    case False
    then show ?thesis unfolding nc using d(5) by simp
  qed
  show "k < c \<and> c < length (nodes st3) \<and> node_parent (nodes st3 ! c) = Some k
           \<and> node_n (nodes st3 ! c) \<le> node_n (nodes st3 ! k)
           \<and> (c \<notin> {} \<longrightarrow> 0 < node_n (nodes st3 ! c))"
    using d(1,2) len pc le pos by simp
qed

lemma iterate_step:
  assumes "tree_ok {} st" "0 \<le> t"
  shows "(\<exists>st1. iterate v t rnd 0 (Suc K) st = Some (Inr (No_leaf st1))
            \<and> prefix (arrays st) (arrays st1) \<and> kids_step v st st1)
       \<or> (\<exists>st3. iterate v t rnd 0 (Suc K) st = iterate v t rnd 0 K st3 \<and> tree_ok {} st3
            \<and> prefix (arrays st) (arrays st3) \<and> kids_step v st st3
            \<and> node_n (nodes st3 ! 0) = Suc (node_n (nodes st ! 0)))"
proof -
  from select_effect[OF assms, of v] obtain leaf st1 where
    sel: "select v t st 0 = Some (Inr (leaf, st1))" and t1: "same_tables st st1"
    and ks: "kids_step v st st1" and n1: "node_n (nodes st1 ! 0) = node_n (nodes st ! 0)"
    and lf: "\<forall>l. leaf = Some l \<longrightarrow> l < length (nodes st1) \<and> tree_ok {l} st1" by blast
  have p1: "prefix (arrays st) (arrays st1)" using t1 by (simp add: same_tables_def)
  show ?thesis
  proof (cases leaf)
    case None
    then have "iterate v t rnd 0 (Suc K) st = Some (Inr (No_leaf st1))" using sel by simp
    then show ?thesis using p1 ks by blast
  next
    case (Some l)
    then have l: "l < length (nodes st1)" and tk1: "tree_ok {l} st1" using lf by simp_all
    obtain res acts st2 where ro: "rollout v rnd st1 l = ((res, acts), st2)"
      by (cases "rollout v rnd st1 l") auto
    have g: "arrays_grow st1 st2" using rollout_grow[of st1 v rnd l] ro by simp
    have n2: "nodes st2 = nodes st1" and p2: "prefix (arrays st1) (arrays st2)"
      using g by (simp_all add: arrays_grow_def)
    have tk2: "tree_ok {l} st2" using arrays_grow_tree_ok[OF tk1 g] .
    have l2: "l < length (nodes st2)" using l n2 by simp
    from backpropagate_effect[OF tree_ok_parents[OF tk2] l2, of v res acts] obtain st3 where
      bp: "backpropagate v st2 l res acts = Some st3" and sh: "same_shape st2 st3"
      and nn: "\<forall>i<length (nodes st2). node_n (nodes st3 ! i)
                  = node_n (nodes st2 ! i) + (if anc st2 l i then 1 else 0)" by blast
    have tk3: "tree_ok {} st3" using backprop_tree_ok[OF tk2 l2 sh nn] .
    have it: "iterate v t rnd 0 (Suc K) st = iterate v t rnd 0 K st3"
      using sel Some ro bp by simp
    have a3: "arrays st3 = arrays st2" and len3: "length (nodes st3) = length (nodes st1)"
      using sh n2 by (simp_all add: same_shape_def)
    have p3: "prefix (arrays st) (arrays st3)" using p1 p2 a3 by simp
    have ne1: "0 < length (nodes st1)" using tree_ok_parents[OF tk1] by (simp add: parents_ok_def)
    have root3: "node_turn (nodes st3 ! 0) = node_turn (nodes st1 ! 0)"
      "node_board (nodes st3 ! 0) = node_board (nodes st1 ! 0)"
      "node_children (nodes st3 ! 0) = node_children (nodes st1 ! 0)"
      using sh n2 ne1 by (simp_all add: same_shape_def)
    have b3: "board_of st3 c = board_of st1 c" if "c < length (nodes st1)" for c
    proof -
      have "board_of st2 c = board_of st1 c"
        using arrays_grow_boards[OF tree_ok_heap[OF tk1] g that] .
      moreover have "board_of st3 c = board_of st2 c"
        using same_shape_boards[OF sh] that n2 by simp
      ultimately show ?thesis by simp
    qed
    have ks3: "kids_step v st st3"
    proof -
      have le: "length (nodes st) \<le> length (nodes st1)" using ks by (simp add: kids_step_def)
      have old: "\<forall>c<length (nodes st). board_of st3 c = board_of st c"
        using ks b3 le by (simp add: kids_step_def)
      have kid: "node_children (nodes st3 ! 0) = node_children (nodes st ! 0)
        \<or> (\<exists>j i. i < 7 \<and> lowest_empty (board_of st 0) i j
              \<and> node_children (nodes st3 ! 0) = node_children (nodes st ! 0) @ [length (nodes st)]
              \<and> board_of st3 (length (nodes st)) = drop_board v st 0 j i)"
      proof (cases "node_children (nodes st1 ! 0) = node_children (nodes st ! 0)")
        case True
        then show ?thesis using root3(3) by simp
      next
        case False
        then obtain j i where h: "i < 7" "lowest_empty (board_of st 0) i j"
          "node_children (nodes st1 ! 0) = node_children (nodes st ! 0) @ [length (nodes st)]"
          "board_of st1 (length (nodes st)) = drop_board v st 0 j i"
          using ks unfolding kids_step_def by blast
        have "length (nodes st) \<in> set (node_children (nodes st1 ! 0))" using h(3) by simp
        from tree_okD(2)[OF tk1 ne1 this] have "board_of st3 (length (nodes st)) = drop_board v st 0 j i"
          using b3 h(4) by simp
        then show ?thesis using h(1-3) root3(3) by auto
      qed
      show ?thesis unfolding kids_step_def
        using le len3 root3(1,2) ks old kid by (simp add: kids_step_def)
    qed
    have "anc st2 l 0" using anc_root[OF tree_ok_parents[OF tk2] l2] .
    then have "node_n (nodes st3 ! 0) = Suc (node_n (nodes st2 ! 0))"
      using nn ne1 n2 by simp
    then have n3: "node_n (nodes st3 ! 0) = Suc (node_n (nodes st ! 0))" using n2 n1 by simp
    show ?thesis using it tk3 p3 ks3 n3 by blast
  qed
qed

lemma iterate_inv:
  assumes "tree_ok {} st" "0 \<le> t" "P st"
    and step: "\<And>s s'. tree_ok {} s \<Longrightarrow> P s \<Longrightarrow> kids_step v s s' \<Longrightarrow> P s'"
  shows "\<exists>e. iterate v t rnd 0 K st = Some (Inr e) \<and> prefix (arrays st) (arrays (state_of e))
           \<and> P (state_of e)
           \<and> (\<forall>st'. e = Finished st' \<longrightarrow>
                 tree_ok {} st' \<and> node_n (nodes st' ! 0) = node_n (nodes st ! 0) + K)"
  using assms(1,3)
proof (induction K arbitrary: st)
  case 0
  then show ?case by (simp add: state_of_def)
next
  case (Suc K)
  from iterate_step[OF Suc.prems(1) assms(2), of v rnd K] show ?case
  proof
    assume "\<exists>st1. iterate v t rnd 0 (Suc K) st = Some (Inr (No_leaf st1))
            \<and> prefix (arrays st) (arrays st1) \<and> kids_step v st st1"
    then obtain st1 where h: "iterate v t rnd 0 (Suc K) st = Some (Inr (No_leaf st1))"
      "prefix (arrays st) (arrays st1)" "kids_step v st st1" by blast
    have "P st1" using step[OF Suc.prems(1,2) h(3)] .
    then show ?thesis using h(1,2) by (simp add: state_of_def)
  next
    assume "\<exists>st3. iterate v t rnd 0 (Suc K) st = iterate v t rnd 0 K st3 \<and> tree_ok {} st3
            \<and> prefix (arrays st) (arrays st3) \<and> kids_step v st st3
            \<and> node_n (nodes st3 ! 0) = Suc (node_n (nodes st ! 0))"
    then obtain st3 where h: "iterate v t rnd 0 (Suc K) st = iterate v t rnd 0 K st3" "tree_ok {} st3"
      "prefix (arrays st) (arrays st3)" "kids_step v st st3"
      "node_n (nodes st3 ! 0) = Suc (node_n (nodes st ! 0))" by blast
    have p3: "P st3" using step[OF Suc.prems(1,2) h(4)] .
    from Suc.IH[OF h(2) p3] obtain e where
      e: "iterate v t rnd 0 K st3 = Some (Inr e)" "prefix (arrays st3) (arrays (state_of e))"
      "P (state_of e)"
      "\<forall>st'. e = Finished st' \<longrightarrow> tree_ok {} st' \<and> node_n (nodes st' ! 0) = node_n (nodes st3 ! 0) + K"
      by blast
    have "prefix (arrays st) (arrays (state_of e))" using h(3) e(2) by simp
    then show ?thesis using h(1,5) e by auto
  qed
qed

lemma init_state_fields:
  "arrays (init_state v b turn) = [b]"
  "length (nodes (init_state v b turn)) = 1"
  "node_parent (nodes (init_state v b turn) ! 0) = None"
  "node_board (nodes (init_state v b turn) ! 0) = 0"
  "node_children (nodes (init_state v b turn) ! 0) = []"
  "node_n (nodes (init_state v b turn) ! 0) = 0"
  "node_turn (nodes (init_state v b turn) ! 0) = (case v of AMAF \<Rightarrow> 3 - turn | RAVE \<Rightarrow> if turn = 1 then 2 else 1)"
  by (simp_all add: init_state_def Node_init_def)

lemma init_tree_ok: "tree_ok {} (init_state v b turn)"
proof (rule tree_okI)
  show "parents_ok (init_state v b turn)"
    using init_state_fields(2)[of v b turn] init_state_fields(3)[of v b turn]
    by (auto simp: parents_ok_def)
  show "heap_ok (init_state v b turn)"
    unfolding heap_ok_iff using init_state_fields(1,2,4)[of v b turn] by simp
  fix k c assume "k < length (nodes (init_state v b turn))"
    "c \<in> set (node_children (nodes (init_state v b turn) ! k))"
  then have False using init_state_fields(2,5)[of v b turn] by simp
  then show "k < c \<and> c < length (nodes (init_state v b turn))
       \<and> node_parent (nodes (init_state v b turn) ! c) = Some k
       \<and> node_n (nodes (init_state v b turn) ! c) \<le> node_n (nodes (init_state v b turn) ! k)
       \<and> (c \<notin> {} \<longrightarrow> 0 < node_n (nodes (init_state v b turn) ! c))" by simp
qed

lemma iterate_total:
  assumes "0 \<le> t"
  shows "\<exists>e. iterate v t rnd 0 K (init_state v b turn) = Some (Inr e)"
    and "iterate v t rnd 0 K (init_state v b turn) = Some (Inr (Finished st)) \<Longrightarrow>
         tree_ok {} st \<and> node_n (nodes st ! 0) = K"
proof -
  have "\<exists>e. iterate v t rnd 0 K (init_state v b turn) = Some (Inr e)
           \<and> prefix (arrays (init_state v b turn)) (arrays (state_of e)) \<and> True
           \<and> (\<forall>st'. e = Finished st' \<longrightarrow>
                 tree_ok {} st' \<and> node_n (nodes st' ! 0) = node_n (nodes (init_state v b turn) ! 0) + K)"
    by (rule iterate_inv[where P="\<lambda>s. True", OF init_tree_ok assms]) simp_all
  then obtain e where
    e: "iterate v t rnd 0 K (init_state v b turn) = Some (Inr e)"
    "\<forall>st'. e = Finished st' \<longrightarrow>
        tree_ok {} st' \<and> node_n (nodes st' ! 0) = node_n (nodes (init_state v b turn) ! 0) + K"
    by blast
  show "\<exists>e. iterate v t rnd 0 K (init_state v b turn) = Some (Inr e)" using e(1) by blast
  show "tree_ok {} st \<and> node_n (nodes st ! 0) = K"
    if "iterate v t rnd 0 K (init_state v b turn) = Some (Inr (Finished st))"
    using that e init_state_fields(6)[of v b turn] by simp
qed

lemma finishedD: "finished r \<Longrightarrow> \<exists>st. r = Some (Inr (Finished st))"
  by (auto simp: finished_def split: option.splits sum.splits loop_end.splits)

lemma iterate_frame:
  assumes "tree_ok {} st" "0 \<le> t"
  shows "\<exists>e. iterate v t rnd 0 K st = Some (Inr e) \<and> prefix (arrays st) (arrays (state_of e))
           \<and> (length (nodes st) \<le> length (nodes (state_of e))
               \<and> (\<forall>k<length (nodes st). board_of (state_of e) k = board_of st k)
               \<and> node_board (nodes (state_of e) ! 0) = node_board (nodes st ! 0))
           \<and> (\<forall>st'. e = Finished st' \<longrightarrow>
                 tree_ok {} st' \<and> node_n (nodes st' ! 0) = node_n (nodes st ! 0) + K)"
proof (rule iterate_inv[where P="\<lambda>s. length (nodes st) \<le> length (nodes s)
               \<and> (\<forall>k<length (nodes st). board_of s k = board_of st k)
               \<and> node_board (nodes s ! 0) = node_board (nodes st ! 0)", OF assms])
  show "length (nodes st) \<le> length (nodes st)
               \<and> (\<forall>k<length (nodes st). board_of st k = board_of st k)
               \<and> node_board (nodes st ! 0) = node_board (nodes st ! 0)" by simp
next
  fix s s'
  assume p: "length (nodes st) \<le> length (nodes s)
               \<and> (\<forall>k<length (nodes st). board_of s k = board_of st k)
               \<and> node_board (nodes s ! 0) = node_board (nodes st ! 0)"
    and ks: "kids_step v s s'"
  have 1: "length (nodes s) \<le> length (nodes s')" "node_board (nodes s' ! 0) = node_board (nodes s ! 0)"
    "\<forall>c<length (nodes s). board_of s' c = board_of s c"
    using ks by (simp_all add: kids_step_def)
  show "length (nodes st) \<le> length (nodes s')
               \<and> (\<forall>k<length (nodes st). board_of s' k = board_of st k)
               \<and> node_board (nodes s' ! 0) = node_board (nodes st ! 0)"
    using p 1 by auto
qed

lemma compute_move_state:
  "iterate v t rnd 0 K st = Some (Inr e) \<Longrightarrow>
   \<exists>mv. compute_move v t rnd K st 0 = Some (Inr (mv, state_of e))"
  by (cases e) (simp_all add: compute_move_def state_of_def)

lemma compute_move_iterate:
  "compute_move v t rnd K st 0 = Some (Inr (mv, st')) \<Longrightarrow>
   \<exists>e. iterate v t rnd 0 K st = Some (Inr e) \<and> st' = state_of e"
  by (auto simp: compute_move_def state_of_def split: option.splits sum.splits loop_end.splits)

lemma returnedD: "returned r \<Longrightarrow> \<exists>mv st'. r = Some (Inr (mv, st'))"
  by (auto simp: returned_def split: option.splits sum.splits)

subsection \<open>The loop uses up its budget\<close>

text \<open>
  \<^verbatim>\<open>compute_move\<close> leaves its loop early when \<^verbatim>\<open>select\<close> returns \<^verbatim>\<open>None\<close>, which
  \<^verbatim>\<open>pick_unvisited\<close> does when every child has been visited. On a tree grown from a root
  over a 6 by 7 board this does not happen. The legal drops at a node are as many as the
  zeros in the top row of its board, so a node whose children are all visited and cover
  the legal drops is fully expanded, and the walk of \<^verbatim>\<open>select\<close> stops only at a node
  that is not fully expanded or has no child. There \<^verbatim>\<open>add_child\<close> appends a child, or
  the node has no child and is returned itself.
\<close>

lemma lowest_unique: "lowest_empty b i j \<Longrightarrow> lowest_empty b i j' \<Longrightarrow> j = j'"
proof (rule ccontr)
  assume a: "lowest_empty b i j" "lowest_empty b i j'" and n: "j \<noteq> j'"
  then consider "j < j'" | "j' < j" by linarith
  then show False
  proof cases
    case 1
    then show ?thesis using a by (simp add: lowest_empty_def)
  next
    case 2
    then show ?thesis using a by (simp add: lowest_empty_def)
  qed
qed

lemma lowest_exists: "cell b 5 i = 0 \<Longrightarrow> \<exists>j. lowest_empty b i j"
proof -
  assume z: "cell b 5 i = 0"
  have "find (\<lambda>j. cell b j i = 0) [0..<6] \<noteq> None"
    using z unfolding find_upt_none by (intro notI) (drule spec[of _ 5], simp)
  then obtain j where "find (\<lambda>j. cell b j i = 0) [0..<6] = Some j" by blast
  then show ?thesis unfolding find_upt_lowest by blast
qed

lemma count_list_card: "count_list xs x = card {i. i < length xs \<and> xs ! i = x}"
proof -
  have "count_list xs x = length (filter ((=) x) xs)" by (induction xs) auto
  also have "\<dots> = card {i. i < length xs \<and> x = xs ! i}" by (rule length_filter_conv_card)
  also have "{i. i < length xs \<and> x = xs ! i} = {i. i < length xs \<and> xs ! i = x}" by auto
  finally show ?thesis .
qed

lemma drops_count:
  assumes "shape_ok b" "m \<noteq> 0"
  shows "finite {set_cell b j i m | j i. i < 7 \<and> cell b 5 i = 0 \<and> lowest_empty b i j}"
    and "card {set_cell b j i m | j i. i < 7 \<and> cell b 5 i = 0 \<and> lowest_empty b i j}
           = count_list (b ! 5) 0"
proof -
  let ?L = "{i. i < 7 \<and> cell b 5 i = 0}"
  let ?low = "\<lambda>i. the (find (\<lambda>j. cell b j i = 0) [0..<6])"
  let ?f = "\<lambda>i. set_cell b (?low i) i m"
  let ?D = "{set_cell b j i m | j i. i < 7 \<and> cell b 5 i = 0 \<and> lowest_empty b i j}"
  have low: "lowest_empty b i (?low i)" if "i \<in> ?L" for i
  proof -
    have "cell b 5 i = 0" using that by simp
    from lowest_exists[OF this] obtain j where j: "lowest_empty b i j" by blast
    then have "find (\<lambda>j. cell b j i = 0) [0..<6] = Some j" by (simp only: find_upt_lowest)
    then show ?thesis using j by simp
  qed
  have lowI: "?low i = j" if "lowest_empty b i j" for i j
  proof -
    have "find (\<lambda>j. cell b j i = 0) [0..<6] = Some j" using that by (simp only: find_upt_lowest)
    then show ?thesis by simp
  qed
  have D: "?D = ?f ` ?L"
  proof (intro set_eqI iffI)
    fix x assume "x \<in> ?D"
    then obtain j i where h: "x = set_cell b j i m" "i < 7" "cell b 5 i = 0" "lowest_empty b i j" by blast
    then have "x = ?f i" using lowI[OF h(4)] by simp
    then show "x \<in> ?f ` ?L" using h(2,3) by blast
  next
    fix x assume "x \<in> ?f ` ?L"
    then obtain i where i: "i \<in> ?L" "x = ?f i" by blast
    then show "x \<in> ?D" using low[OF i(1)] by blast
  qed
  have fin: "finite ?L" by simp
  show "finite ?D" unfolding D using fin by simp
  have inj: "inj_on ?f ?L"
  proof (rule inj_onI)
    fix i i' assume h: "i \<in> ?L" "i' \<in> ?L" "?f i = ?f i'"
    note l = low[OF h(1)] low[OF h(2)]
    have j: "?low i < 6" "?low i' < 6" "cell b (?low i) i = 0"
      using l by (simp_all add: lowest_empty_def)
    have i7: "i < 7" "i' < 7" using h(1,2) by simp_all
    have "cell (?f i) (?low i) i = m"
      using cell_set_cell[OF assms(1) j(1) i7(1)] by simp
    then have "cell (?f i') (?low i) i = m" using h(3) by simp
    then have "(if ?low i = ?low i' \<and> i = i' then m else cell b (?low i) i) = m"
      using cell_set_cell[OF assms(1) j(2) i7(2), of m "?low i" i] by simp
    then show "i = i'" using j(3) assms(2) by (auto split: if_splits)
  qed
  have len: "length (b ! 5) = 7" using assms(1) by (simp add: shape_ok_def list_all_length)
  have "card ?D = card ?L" unfolding D using inj by (rule card_image)
  also have "?L = {i. i < length (b ! 5) \<and> (b ! 5) ! i = 0}" by (simp add: len cell_def)
  also have "card \<dots> = count_list (b ! 5) 0" by (simp only: count_list_card)
  finally show "card ?D = count_list (b ! 5) 0" .
qed

lemma legal_drops_count:
  assumes "shape_ok (board_of st k)" "node_turn (nodes st ! k) = 1 \<or> node_turn (nodes st ! k) = 2"
  shows "finite (legal_drops v st k)" "card (legal_drops v st k) = count_list (board_of st k ! 5) 0"
proof -
  note d = drops_count[OF assms(1) child_mark_nonzero[OF assms(2), of v]]
  show "finite (legal_drops v st k)" unfolding legal_drops_def drop_board_def using d(1) .
  show "card (legal_drops v st k) = count_list (board_of st k ! 5) 0"
    unfolding legal_drops_def drop_board_def using d(2) .
qed

lemma kids_count:
  assumes "kids_legal v st k"
    and "legal_drops v st k \<subseteq> board_of st ` set (node_children (nodes st ! k))"
  shows "length (node_children (nodes st ! k)) = count_list (board_of st k ! 5) 0"
proof -
  let ?cs = "node_children (nodes st ! k)"
  have k: "shape_ok (board_of st k)" "node_turn (nodes st ! k) = 1 \<or> node_turn (nodes st ! k) = 2"
    "distinct (map (board_of st) ?cs)" "board_of st ` set ?cs \<subseteq> legal_drops v st k"
    using assms(1) by (simp_all add: kids_legal_def)
  have eq: "set (map (board_of st) ?cs) = legal_drops v st k" using k(4) assms(2) by auto
  have "length ?cs = length (map (board_of st) ?cs)" by simp
  also have "\<dots> = card (set (map (board_of st) ?cs))" using distinct_card[OF k(3)] by simp
  also have "\<dots> = count_list (board_of st k ! 5) 0"
    unfolding eq using legal_drops_count(2)[OF k(1,2)] .
  finally show ?thesis .
qed

lemma select_loop_some:
  assumes "\<forall>c\<in>set cs. \<exists>x. combined_value v t st k c = Inr (Some x)" "best \<noteq> None \<or> cs \<noteq> []"
  shows "\<exists>x c. select_loop v t st k cs best = Inr (Some (x, c))"
  using assms
proof (induction cs arbitrary: best)
  case Nil
  then show ?case by auto
next
  case (Cons c cs)
  from Cons.prems(1) obtain x where x: "combined_value v t st k c = Inr (Some x)" by auto
  have rest: "\<forall>c\<in>set cs. \<exists>x. combined_value v t st k c = Inr (Some x)" using Cons.prems(1) by simp
  show ?case
  proof (cases "best = None \<or> (\<exists>bv bn. best = Some (bv, bn) \<and> x > bv)")
    case True
    then have "select_loop v t st k (c # cs) best = select_loop v t st k cs (Some (x, c))"
      using x by (auto split: option.splits)
    with Cons.IH[OF rest, of "Some (x, c)"] show ?thesis by simp
  next
    case False
    then have "select_loop v t st k (c # cs) best = select_loop v t st k cs best" "best \<noteq> None"
      using x by (auto split: option.splits)
    with Cons.IH[OF rest, of best] show ?thesis by simp
  qed
qed

lemma select_best_kid:
  assumes "\<forall>c\<in>set (node_children (nodes st ! k)). \<exists>x. combined_value v t st k c = Inr (Some x)"
    and "node_children (nodes st ! k) \<noteq> []"
  shows "\<exists>c\<in>set (node_children (nodes st ! k)). select_best v t st k = Inr c"
proof -
  from select_loop_some[OF assms(1), of None] assms(2) obtain x c where
    s: "select_loop v t st k (node_children (nodes st ! k)) None = Inr (Some (x, c))" by blast
  from select_loop_ok[OF assms(1), of None] s have "c \<in> set (node_children (nodes st ! k))" by auto
  then show ?thesis using s by (auto simp: select_best_def)
qed

lemma select_walk_end:
  assumes "tree_ok {} st" "0 \<le> t" "k < length (nodes st)"
  shows "\<exists>nd<length (nodes st). select_walk v t st k = Some (Inr nd)
           \<and> (fully_expanded st nd \<longrightarrow> node_children (nodes st ! nd) = [])"
  using assms(3)
proof (induction "length (nodes st) - k" arbitrary: k rule: less_induct)
  case less
  show ?case
  proof (cases "fully_expanded st k")
    case False
    then have "select_walk v t st k = Some (Inr k)" by (subst select_walk.simps) simp
    then show ?thesis using less.prems False by blast
  next
    case True
    have sc: "\<forall>c\<in>set (node_children (nodes st ! k)). \<exists>x. combined_value v t st k c = Inr (Some x)"
      using scores_defined(3)[OF assms(1,2) less.prems] by blast
    show ?thesis
    proof (cases "node_children (nodes st ! k) = []")
      case e: True
      then have "select_best v t st k = Inr k" by (simp add: select_best_def)
      then have "select_walk v t st k = Some (Inr k)" using True by (subst select_walk.simps) simp
      then show ?thesis using less.prems e by blast
    next
      case False
      from select_best_kid[OF sc False] obtain c where
        c: "c \<in> set (node_children (nodes st ! k))" "select_best v t st k = Inr c" by blast
      note d = tree_okD[OF assms(1) less.prems c(1)]
      have "select_walk v t st k = select_walk v t st c"
        using True c(2) d(1) by (subst select_walk.simps) simp
      moreover have "\<exists>nd<length (nodes st). select_walk v t st c = Some (Inr nd)
           \<and> (fully_expanded st nd \<longrightarrow> node_children (nodes st ! nd) = [])"
        using less.hyps[of c] d(1,2) less.prems by simp
      ultimately show ?thesis by simp
    qed
  qed
qed

lemma all_visited_full:
  assumes "tree_ok {} st" "nd < length (nodes st)"
    and "length (node_children (nodes st ! nd)) = count_list (board_of st nd ! 5) 0"
  shows "fully_expanded st nd"
proof -
  have "0 < node_n (nodes st ! c)" if "c \<in> set (node_children (nodes st ! nd))" for c
    using tree_okD(5)[OF assms(1,2) that] by simp
  then show ?thesis using assms(3) by (simp add: fully_expanded_def list_all_iff)
qed

lemma select_shape:
  assumes "select_walk v t st 0 = Some (Inr nd)"
  shows "node_terminal (nodes st ! nd) \<Longrightarrow> select v t st 0 = Some (Inr (Some nd, st))"
    and "\<not> node_terminal (nodes st ! nd) \<Longrightarrow>
           select v t st 0 = Some (Inr (
             (if node_children (nodes (add_child v st nd) ! nd) \<noteq> []
              then pick_unvisited (add_child v st nd) (node_children (nodes (add_child v st nd) ! nd))
              else Some nd), add_child v st nd))"
  using assms by (simp_all add: select_def Let_def)

lemma add_child_cases:
  assumes "heap_ok st" "kids_ok st nd"
  shows "(node_expanded (nodes st ! nd) \<and> add_child v st nd = st)
       \<or> (same_tables st (add_child v st nd)
          \<and> (exhausted v st nd [0..<7] (add_child v st nd)
             \<or> (\<exists>j i. i < 7 \<and> cell (board_of st nd) 5 i = 0 \<and> lowest_empty (board_of st nd) i j
                   \<and> appended v st nd j i (add_child v st nd))))"
proof (cases "node_expanded (nodes st ! nd)")
  case True
  then show ?thesis by (simp add: add_child_def)
next
  case False
  then have e: "add_child v st nd = add_child_cols v st nd [0..<7]" by (simp add: add_child_def)
  from add_child_cols_effect[OF assms, of v "[0..<7]"] show ?thesis unfolding e by auto
qed

lemma exhausted_legal:
  assumes "exhausted v st nd [0..<7] st1"
  shows "legal_drops v st nd \<subseteq> board_of st ` set (node_children (nodes st ! nd))"
proof
  fix x assume "x \<in> legal_drops v st nd"
  then obtain j i where h: "x = drop_board v st nd j i" "i < 7" "cell (board_of st nd) 5 i = 0"
    "lowest_empty (board_of st nd) i j" unfolding legal_drops_def by blast
  have "i \<in> set [0..<7]" using h(2) by simp
  then show "x \<in> board_of st ` set (node_children (nodes st ! nd))"
    using assms h(1,3,4) unfolding exhausted_def by blast
qed

lemma select_leaf:
  assumes "tree_ok {} st" "0 \<le> t" "drops_ok v st"
  shows "\<exists>l st1. select v t st 0 = Some (Inr (Some l, st1))"
proof -
  have ne: "0 < length (nodes st)" using tree_ok_parents[OF assms(1)] by (simp add: parents_ok_def)
  from select_walk_end[OF assms(1,2) ne, of v] obtain nd where
    nd: "nd < length (nodes st)" "select_walk v t st 0 = Some (Inr nd)"
    "fully_expanded st nd \<longrightarrow> node_children (nodes st ! nd) = []" by blast
  have kl: "kids_legal v st nd" using assms(3) nd(1) by (simp add: drops_ok_def)
  have nokids: "node_children (nodes st ! nd) = []"
    if "legal_drops v st nd \<subseteq> board_of st ` set (node_children (nodes st ! nd))"
    using nd(3) all_visited_full[OF assms(1) nd(1) kids_count[OF kl that]] by simp
  show ?thesis
  proof (cases "node_terminal (nodes st ! nd)")
    case True
    then show ?thesis using select_shape(1)[OF nd(2)] by blast
  next
    case nt: False
    let ?st1 = "add_child v st nd"
    note sh = select_shape(2)[OF nd(2) nt]
    from add_child_cases[OF tree_ok_heap[OF assms(1)] tree_ok_kids[OF assms(1) nd(1)], of v]
    show ?thesis
    proof (elim disjE conjE exE)
      assume x: "node_expanded (nodes st ! nd)" "?st1 = st"
      have "legal_drops v st nd \<subseteq> board_of st ` set (node_children (nodes st ! nd))"
        using kl x(1) by (simp add: kids_legal_def)
      from nokids[OF this] have "node_children (nodes ?st1 ! nd) = []" using x(2) by simp
      then show ?thesis using sh by simp
    next
      assume x: "exhausted v st nd [0..<7] ?st1"
      have "node_children (nodes st ! nd) = []" using nokids[OF exhausted_legal[OF x]] .
      then have "node_children (nodes ?st1 ! nd) = []" using exhausted_nth(5)[OF x nd(1)] by simp
      then show ?thesis using sh by simp
    next
      fix j i assume x: "appended v st nd j i ?st1"
      have "node_children (nodes ?st1 ! nd) \<noteq> []" using appended_nth(6)[OF x nd(1) nd(1)] by simp
      then show ?thesis using sh appended_pick[OF assms(1) x nd(1)] by simp
    qed
  qed
qed

lemma legal_drops_cong:
  "board_of st' k = board_of st k \<Longrightarrow> node_turn (nodes st' ! k) = node_turn (nodes st ! k) \<Longrightarrow>
   legal_drops v st' k = legal_drops v st k"
  by (simp add: legal_drops_def drop_board_def)

lemma kids_legal_cong:
  assumes "kids_legal v st k"
    and "board_of st' k = board_of st k" "node_turn (nodes st' ! k) = node_turn (nodes st ! k)"
    and "node_children (nodes st' ! k) = node_children (nodes st ! k)"
    and "\<forall>c\<in>set (node_children (nodes st ! k)). board_of st' c = board_of st c"
    and "node_expanded (nodes st' ! k) \<longrightarrow> node_expanded (nodes st ! k)
           \<or> legal_drops v st k \<subseteq> board_of st ` set (node_children (nodes st ! k))"
  shows "kids_legal v st' k"
proof -
  have m: "map (board_of st') (node_children (nodes st ! k)) = map (board_of st) (node_children (nodes st ! k))"
    using assms(5) by simp
  have i: "board_of st' ` set (node_children (nodes st ! k)) = board_of st ` set (node_children (nodes st ! k))"
    using assms(5) by (simp cong: image_cong)
  note l = legal_drops_cong[OF assms(2,3), of v]
  show ?thesis
    unfolding kids_legal_def assms(2,3,4) m i l
    using assms(1,6) unfolding kids_legal_def by blast
qed

lemma shape_ok_set_cell: "shape_ok b \<Longrightarrow> shape_ok (set_cell b j i m)"
  by (auto simp: shape_ok_def set_cell_def list_all_length nth_update_cases)

lemma arrays_grow_drops_ok:
  assumes "tree_ok X st" "arrays_grow st st1" "drops_ok v st"
  shows "drops_ok v st1"
  unfolding drops_ok_def
proof (intro allI impI)
  fix k assume "k < length (nodes st1)"
  have n: "nodes st1 = nodes st" using assms(2) by (simp add: arrays_grow_def)
  then have k: "k < length (nodes st)" using \<open>k < length (nodes st1)\<close> by simp
  note b = arrays_grow_boards[OF tree_ok_heap[OF assms(1)] assms(2)]
  have kl: "kids_legal v st k" using assms(3) k by (simp add: drops_ok_def)
  show "kids_legal v st1 k"
  proof (rule kids_legal_cong[OF kl])
    show "board_of st1 k = board_of st k" using b[OF k] .
    show "\<forall>c\<in>set (node_children (nodes st ! k)). board_of st1 c = board_of st c"
      using b tree_okD(2)[OF assms(1) k] by blast
  qed (simp_all add: n)
qed

lemma same_shape_drops_ok:
  assumes "tree_ok X st" "same_shape st st1" "drops_ok v st"
  shows "drops_ok v st1"
  unfolding drops_ok_def
proof (intro allI impI)
  fix k assume "k < length (nodes st1)"
  then have k: "k < length (nodes st)" using assms(2) by (simp add: same_shape_def)
  note b = same_shape_boards[OF assms(2)]
  have kl: "kids_legal v st k" using assms(3) k by (simp add: drops_ok_def)
  show "kids_legal v st1 k"
  proof (rule kids_legal_cong[OF kl])
    show "board_of st1 k = board_of st k" using b[OF k] .
    show "\<forall>c\<in>set (node_children (nodes st ! k)). board_of st1 c = board_of st c"
      using b tree_okD(2)[OF assms(1) k] by blast
  qed (use assms(2) k in \<open>simp_all add: same_shape_def\<close>)
qed

lemma exhausted_flag:
  assumes "exhausted v st nd cols st1" "k < length (nodes st)"
  shows "node_expanded (nodes st1 ! k) \<longleftrightarrow> k = nd \<or> node_expanded (nodes st ! k)"
proof -
  have n: "nodes st1 = (nodes st)[nd := (nodes st ! nd)\<lparr>node_expanded := True\<rparr>]"
    using assms(1) by (simp add: exhausted_def)
  show ?thesis unfolding n using assms(2) by (auto simp: nth_update_cases)
qed

lemma exhausted_drops_ok:
  assumes "tree_ok {} st" "exhausted v st nd [0..<7] st1" "same_tables st st1"
    and "nd < length (nodes st)" "drops_ok v st"
  shows "drops_ok v st1"
  unfolding drops_ok_def
proof (intro allI impI)
  note e = exhausted_nth[OF assms(2)]
  note eb = exhausted_boards[OF tree_ok_heap[OF assms(1)] tree_ok_kids[OF assms(1,4)] assms(3,2)]
  fix k assume "k < length (nodes st1)"
  then have k: "k < length (nodes st)" using e(1)[OF assms(4)] by simp
  have kl: "kids_legal v st k" using assms(5) k by (simp add: drops_ok_def)
  show "kids_legal v st1 k"
  proof (rule kids_legal_cong[OF kl])
    show "board_of st1 k = board_of st k" using eb(1)[OF k] .
    show "node_turn (nodes st1 ! k) = node_turn (nodes st ! k)" using e(4)[OF k] .
    show "node_children (nodes st1 ! k) = node_children (nodes st ! k)" using e(5)[OF k] .
    show "\<forall>c\<in>set (node_children (nodes st ! k)). board_of st1 c = board_of st c"
      using eb(1) tree_okD(2)[OF assms(1) k] by blast
    show "node_expanded (nodes st1 ! k) \<longrightarrow> node_expanded (nodes st ! k)
           \<or> legal_drops v st k \<subseteq> board_of st ` set (node_children (nodes st ! k))"
      using exhausted_flag[OF assms(2) k] exhausted_legal[OF assms(2)] by blast
  qed
qed

lemma appended_flag:
  assumes "appended v st nd j i st1" "k < length (nodes st)"
  shows "node_expanded (nodes st1 ! k) = node_expanded (nodes st ! k)"
    and "\<not> node_expanded (nodes st1 ! length (nodes st))"
    and "node_turn (nodes st1 ! length (nodes st)) =
           (case v of AMAF \<Rightarrow> 3 - child_turn_arg v (node_turn (nodes st ! nd))
            | RAVE \<Rightarrow> if child_turn_arg v (node_turn (nodes st ! nd)) = 1 then 2 else 1)"
proof -
  let ?new = "child_node v nd (node_turn (nodes st ! nd)) (length (arrays st1) - 1) (drop_board v st nd j i)"
  let ?upd = "(nodes st)[nd := (nodes st ! nd)\<lparr>node_children := node_children (nodes st ! nd) @ [length (nodes st)]\<rparr>]"
  have n: "nodes st1 = ?upd @ [?new]" using assms(1) by (simp add: appended_def)
  have lu: "length ?upd = length (nodes st)" by simp
  have new: "nodes st1 ! length (nodes st) = ?new" unfolding n by (metis lu nth_append_length)
  have old: "nodes st1 ! k = ?upd ! k" unfolding n using assms(2) by (simp add: nth_append)
  show "node_expanded (nodes st1 ! k) = node_expanded (nodes st ! k)"
    unfolding old using assms(2) by (simp add: nth_update_cases)
  show "\<not> node_expanded (nodes st1 ! length (nodes st))" unfolding new by (simp add: child_node_def)
  show "node_turn (nodes st1 ! length (nodes st)) =
           (case v of AMAF \<Rightarrow> 3 - child_turn_arg v (node_turn (nodes st ! nd))
            | RAVE \<Rightarrow> if child_turn_arg v (node_turn (nodes st ! nd)) = 1 then 2 else 1)"
    unfolding new by (simp add: child_node_def)
qed

lemma child_turn_range:
  assumes "turn = 1 \<or> turn = 2"
  shows "(case v of AMAF \<Rightarrow> 3 - child_turn_arg v turn
            | RAVE \<Rightarrow> if child_turn_arg v turn = 1 then 2 else (1::int)) \<in> {1, 2}"
  using assms by (cases v) (auto simp: child_turn_arg_def)

lemma appended_drops_ok:
  assumes "tree_ok {} st" "appended v st nd j i st1" "same_tables st st1"
    and "nd < length (nodes st)" "drops_ok v st"
    and "i < 7" "cell (board_of st nd) 5 i = 0" "lowest_empty (board_of st nd) i j"
  shows "drops_ok v st1"
  unfolding drops_ok_def
proof (intro allI impI)
  let ?L = "length (nodes st)"
  let ?cs = "node_children (nodes st ! nd)"
  note a = appended_nth[OF assms(2,4)]
  note ab = appended_boards[OF tree_ok_heap[OF assms(1)] tree_ok_kids[OF assms(1,4)] assms(3,2)]
  note af = appended_flag[OF assms(2)]
  have knd: "kids_legal v st nd" using assms(5,4) by (simp add: drops_ok_def)
  have fresh: "drop_board v st nd j i \<notin> board_of st ` set ?cs"
    using assms(2) by (simp add: appended_def)
  have legal: "drop_board v st nd j i \<in> legal_drops v st nd"
    unfolding legal_drops_def using assms(6,7,8) by blast
  fix k assume "k < length (nodes st1)"
  then consider "k = ?L" | "k = nd" | "k < ?L" "k \<noteq> nd" using a(1) by linarith
  then show "kids_legal v st1 k"
  proof cases
    case 1
    have sh: "shape_ok (board_of st1 ?L)"
      unfolding ab(3) drop_board_def using knd shape_ok_set_cell by (simp add: kids_legal_def)
    have tr: "node_turn (nodes st1 ! ?L) = 1 \<or> node_turn (nodes st1 ! ?L) = 2"
      unfolding af(3)[OF assms(4)]
      using child_turn_range[of "node_turn (nodes st ! nd)" v] knd by (simp add: kids_legal_def)
    have ch: "node_children (nodes st1 ! ?L) = []" unfolding a(7) by (simp add: child_node_fields)
    show ?thesis unfolding 1 kids_legal_def using sh tr ch af(2)[OF assms(4)] by simp
  next
    case 2
    have old: "\<forall>c\<in>set ?cs. board_of st1 c = board_of st c"
      using ab(1) tree_okD(2)[OF assms(1,4)] by blast
    have m: "map (board_of st1) (?cs @ [?L]) = map (board_of st) ?cs @ [drop_board v st nd j i]"
      using old ab(3) by simp
    have im: "board_of st1 ` set (?cs @ [?L]) = insert (drop_board v st nd j i) (board_of st ` set ?cs)"
      using old ab(3) by (auto cong: image_cong)
    have l: "legal_drops v st1 nd = legal_drops v st nd"
      by (rule legal_drops_cong[OF ab(1)[OF assms(4)] a(4)[OF assms(4)]])
    have k0: "shape_ok (board_of st nd)" "node_turn (nodes st ! nd) = 1 \<or> node_turn (nodes st ! nd) = 2"
      "distinct (map (board_of st) ?cs)" "board_of st ` set ?cs \<subseteq> legal_drops v st nd"
      "node_expanded (nodes st ! nd) \<longrightarrow> legal_drops v st nd \<subseteq> board_of st ` set ?cs"
      using knd by (simp_all add: kids_legal_def)
    have d: "distinct (map (board_of st) ?cs @ [drop_board v st nd j i])"
      using k0(3) fresh by simp
    show ?thesis
      unfolding 2 kids_legal_def ab(2) m im l ab(1)[OF assms(4)] a(4)[OF assms(4)] af(1)[OF assms(4)]
      using k0 d legal by blast
  next
    case 3
    have kl: "kids_legal v st k" using assms(5) 3(1) by (simp add: drops_ok_def)
    show ?thesis
    proof (rule kids_legal_cong[OF kl])
      show "board_of st1 k = board_of st k" using ab(1)[OF 3(1)] .
      show "node_turn (nodes st1 ! k) = node_turn (nodes st ! k)" using a(4)[OF 3(1)] .
      show "node_children (nodes st1 ! k) = node_children (nodes st ! k)" using a(6)[OF 3(1)] 3(2) by simp
      show "\<forall>c\<in>set (node_children (nodes st ! k)). board_of st1 c = board_of st c"
        using ab(1) tree_okD(2)[OF assms(1) 3(1)] by blast
      show "node_expanded (nodes st1 ! k) \<longrightarrow> node_expanded (nodes st ! k)
           \<or> legal_drops v st k \<subseteq> board_of st ` set (node_children (nodes st ! k))"
        using af(1)[OF 3(1)] by simp
    qed
  qed
qed

lemma select_drops:
  assumes "tree_ok {} st" "0 \<le> t" "drops_ok v st" "select v t st 0 = Some (Inr (leaf, st1))"
  shows "drops_ok v st1"
proof -
  have ne: "0 < length (nodes st)" using tree_ok_parents[OF assms(1)] by (simp add: parents_ok_def)
  from select_walk_end[OF assms(1,2) ne, of v] obtain nd where
    nd: "nd < length (nodes st)" "select_walk v t st 0 = Some (Inr nd)" by blast
  show ?thesis
  proof (cases "node_terminal (nodes st ! nd)")
    case True
    then show ?thesis using select_shape(1)[OF nd(2)] assms(3,4) by simp
  next
    case False
    then have s: "st1 = add_child v st nd" using select_shape(2)[OF nd(2)] assms(4) by simp
    from add_child_cases[OF tree_ok_heap[OF assms(1)] tree_ok_kids[OF assms(1) nd(1)], of v]
    show ?thesis unfolding s
    proof (elim disjE conjE exE)
      assume "add_child v st nd = st"
      then show "drops_ok v (add_child v st nd)" using assms(3) by simp
    next
      assume "same_tables st (add_child v st nd)" "exhausted v st nd [0..<7] (add_child v st nd)"
      then show "drops_ok v (add_child v st nd)"
        using exhausted_drops_ok[OF assms(1) _ _ nd(1) assms(3)] by blast
    next
      fix j i
      assume "same_tables st (add_child v st nd)" "i < 7" "cell (board_of st nd) 5 i = 0"
        "lowest_empty (board_of st nd) i j" "appended v st nd j i (add_child v st nd)"
      then show "drops_ok v (add_child v st nd)"
        using appended_drops_ok[OF assms(1) _ _ nd(1) assms(3)] by blast
    qed
  qed
qed

lemma iterate_step_leaf:
  assumes "tree_ok {} st" "0 \<le> t" "drops_ok v st"
  shows "\<exists>st3. iterate v t rnd 0 (Suc K) st = iterate v t rnd 0 K st3 \<and> tree_ok {} st3
           \<and> drops_ok v st3"
proof -
  from select_leaf[OF assms] obtain l st1 where
    sel: "select v t st 0 = Some (Inr (Some l, st1))" by blast
  from select_effect[OF assms(1,2), of v] sel
  have l: "l < length (nodes st1)" and tk1: "tree_ok {l} st1" by auto
  have d1: "drops_ok v st1" using select_drops[OF assms sel] .
  obtain res acts st2 where ro: "rollout v rnd st1 l = ((res, acts), st2)"
    by (cases "rollout v rnd st1 l") auto
  have g: "arrays_grow st1 st2" using rollout_grow[of st1 v rnd l] ro by simp
  have n2: "nodes st2 = nodes st1" using g by (simp add: arrays_grow_def)
  have tk2: "tree_ok {l} st2" using arrays_grow_tree_ok[OF tk1 g] .
  have d2: "drops_ok v st2" using arrays_grow_drops_ok[OF tk1 g d1] .
  have l2: "l < length (nodes st2)" using l n2 by simp
  from backpropagate_effect[OF tree_ok_parents[OF tk2] l2, of v res acts] obtain st3 where
    bp: "backpropagate v st2 l res acts = Some st3" and sh: "same_shape st2 st3"
    and nn: "\<forall>i<length (nodes st2). node_n (nodes st3 ! i)
                = node_n (nodes st2 ! i) + (if anc st2 l i then 1 else 0)" by blast
  have tk3: "tree_ok {} st3" using backprop_tree_ok[OF tk2 l2 sh nn] .
  have d3: "drops_ok v st3" using same_shape_drops_ok[OF tk2 sh d2] .
  have "iterate v t rnd 0 (Suc K) st = iterate v t rnd 0 K st3" using sel ro bp by simp
  then show ?thesis using tk3 d3 by blast
qed

lemma iterate_completes:
  assumes "tree_ok {} st" "0 \<le> t" "drops_ok v st"
  shows "\<exists>st'. iterate v t rnd 0 K st = Some (Inr (Finished st'))"
  using assms(1,3)
proof (induction K arbitrary: st)
  case 0
  show ?case by simp
next
  case (Suc K)
  from iterate_step_leaf[OF Suc.prems(1) assms(2) Suc.prems(2), of rnd K] obtain st3 where
    h: "iterate v t rnd 0 (Suc K) st = iterate v t rnd 0 K st3" "tree_ok {} st3" "drops_ok v st3"
    by blast
  from Suc.IH[OF h(2,3)] show ?case unfolding h(1) .
qed

lemma init_drops_ok:
  assumes "shape_ok b" "turn = 1 \<or> turn = 2"
  shows "drops_ok v (init_state v b turn)"
proof -
  have t: "node_turn (nodes (init_state v b turn) ! 0) = 1 \<or> node_turn (nodes (init_state v b turn) ! 0) = 2"
    unfolding init_state_fields(7) using assms(2) by (cases v) auto
  have b: "board_of (init_state v b turn) 0 = b" by (simp add: board_of_def init_state_fields)
  have "kids_legal v (init_state v b turn) 0"
    unfolding kids_legal_def b init_state_fields(5) using assms(1) t
    by (simp add: init_state_def Node_init_def)
  then show ?thesis unfolding drops_ok_def init_state_fields(2) by simp
qed

lemma iterate_finishes:
  assumes "shape_ok b" "turn = 1 \<or> turn = 2" "0 \<le> t"
  shows "\<exists>st. iterate v t rnd 0 K (init_state v b turn) = Some (Inr (Finished st))"
  by (rule iterate_completes[OF init_tree_ok assms(3) init_drops_ok[OF assms(1,2)]])

subsection \<open>Visits of the root\<close>

text \<open>
  Claim C7. With the budget given as a number \<open>K\<close> of iterations and a root built as the
  callers build it, the loop of \<^verbatim>\<open>compute_move\<close> always comes to an end without raising
  (the walks of \<^verbatim>\<open>select\<close> and \<^verbatim>\<open>backpropagate\<close> end). Over a 6 by 7 board and for
  player 1 or 2 it completes its \<open>K\<close> iterations, and whenever it completes them the root
  has \<open>K\<close> visits. In the tree it leaves, a call of \<^verbatim>\<open>backpropagate\<close> from any node ends,
  adds one visit to exactly the nodes on the path from that node up to the root, and the
  root, the node without parent, is on that path.
\<close>

theorem root_visits_count:
  assumes "0 \<le> t"
  shows "(\<exists>e. iterate v t rnd 0 K (init_state v b turn) = Some (Inr e))
       \<and> (shape_ok b \<longrightarrow> turn = 1 \<or> turn = 2 \<longrightarrow>
            (\<exists>st. iterate v t rnd 0 K (init_state v b turn) = Some (Inr (Finished st))))
       \<and> (\<forall>st. iterate v t rnd 0 K (init_state v b turn) = Some (Inr (Finished st)) \<longrightarrow>
            node_n (nodes st ! 0) = K \<and> node_parent (nodes st ! 0) = None
            \<and> (\<forall>leaf<length (nodes st). \<forall>winner actions.
                  \<exists>st'. backpropagate v st leaf winner actions = Some st'
                    \<and> anc st leaf 0
                    \<and> (\<forall>i<length (nodes st). node_n (nodes st' ! i)
                          = node_n (nodes st ! i) + (if anc st leaf i then 1 else 0))))"
proof (intro conjI allI impI)
  show "\<exists>e. iterate v t rnd 0 K (init_state v b turn) = Some (Inr e)"
    using iterate_total(1)[OF assms] .
next
  assume "shape_ok b" "turn = 1 \<or> turn = 2"
  then show "\<exists>st. iterate v t rnd 0 K (init_state v b turn) = Some (Inr (Finished st))"
    using iterate_finishes[OF _ _ assms] by blast
next
  fix st assume f: "iterate v t rnd 0 K (init_state v b turn) = Some (Inr (Finished st))"
  note tk = iterate_total(2)[OF assms f]
  show "node_n (nodes st ! 0) = K" using tk by simp
  have po: "parents_ok st" using tk tree_ok_parents by blast
  then show "node_parent (nodes st ! 0) = None" by (simp add: parents_ok_def)
  fix leaf winner actions assume l: "leaf < length (nodes st)"
  from backpropagate_effect[OF po l, of v winner actions] anc_root[OF po l]
  show "\<exists>st'. backpropagate v st leaf winner actions = Some st'
                    \<and> anc st leaf 0
                    \<and> (\<forall>i<length (nodes st). node_n (nodes st' ! i)
                          = node_n (nodes st ! i) + (if anc st leaf i then 1 else 0))"
    by blast
qed

theorem root_visits_count_witness:
  "(0::real) \<le> 5 \<and> shape_ok zeros \<and> ((1::int) = 1 \<or> (1::int) = 2)
   \<and> (\<exists>st. iterate AMAF 5 (\<lambda>d. 0) 0 2 (init_state AMAF zeros 1) = Some (Inr (Finished st))
         \<and> node_n (nodes st ! 0) = 2 \<and> length (nodes st) = 3)"
proof -
  have t: "(0::real) \<le> 5" by simp
  have s: "shape_ok zeros" by code_simp
  note th = root_visits_count[OF t, where v=AMAF and rnd="\<lambda>d. 0" and K=2 and b=zeros and turn=1]
  from th s obtain st where
    st: "iterate AMAF 5 (\<lambda>d. 0) 0 2 (init_state AMAF zeros 1) = Some (Inr (Finished st))"
    by auto
  from th st have n: "node_n (nodes st ! 0) = 2" by blast
  have "case iterate AMAF 5 (\<lambda>d. 0) 0 2 (init_state AMAF zeros 1) of
          Some (Inr e) \<Rightarrow> length (nodes (state_of e)) = 3 | _ \<Rightarrow> False"
    by code_simp
  then have "length (nodes st) = 3" using st by (simp add: state_of_def)
  with st n t s show ?thesis by auto
qed

subsection \<open>Boards are not mutated\<close>

text \<open>
  Claim C9. \<^verbatim>\<open>compute_move\<close> on a root built over the board \<open>b\<close> returns, and when it has
  returned the root still refers to the array it was given and that array still holds
  \<open>b\<close>, cell for cell. More generally, on any tree that the search has built, a run of
  \<^verbatim>\<open>compute_move\<close> leaves every array that existed in place with its content (arrays are
  only added) and so leaves the board of every node that existed as it was: all writes
  of the expansion and of the rollout's move generation go to fresh copies.
\<close>

theorem boards_not_mutated:
  assumes "0 \<le> t"
  shows "(\<exists>r. compute_move v t rnd K (init_state v b turn) 0 = Some (Inr r))
       \<and> (\<forall>mv st'. compute_move v t rnd K (init_state v b turn) 0 = Some (Inr (mv, st')) \<longrightarrow>
             node_board (nodes st' ! 0) = 0 \<and> arrays st' ! 0 = b \<and> board_of st' 0 = b)
       \<and> (\<forall>st K' mv st'.
             iterate v t rnd 0 K (init_state v b turn) = Some (Inr (Finished st)) \<longrightarrow>
             compute_move v t rnd K' st 0 = Some (Inr (mv, st')) \<longrightarrow>
             prefix (arrays st) (arrays st')
             \<and> (\<forall>k<length (nodes st). board_of st' k = board_of st k))"
proof (intro conjI allI impI)
  let ?i = "init_state v b turn"
  from iterate_frame[OF init_tree_ok[of v b turn] assms, where v=v and rnd=rnd and K=K] obtain e where
    e: "iterate v t rnd 0 K ?i = Some (Inr e)" by blast
  from compute_move_state[OF this] show "\<exists>r. compute_move v t rnd K ?i 0 = Some (Inr r)" by blast
next
  let ?i = "init_state v b turn"
  fix mv st' assume c: "compute_move v t rnd K ?i 0 = Some (Inr (mv, st'))"
  from compute_move_iterate[OF c] obtain e where
    e: "iterate v t rnd 0 K ?i = Some (Inr e)" "st' = state_of e" by blast
  from iterate_frame[OF init_tree_ok[of v b turn] assms, where v=v and rnd=rnd and K=K] e obtain
    p: "prefix (arrays ?i) (arrays st')" and bo: "\<forall>k<length (nodes ?i). board_of st' k = board_of ?i k"
    and nb: "node_board (nodes st' ! 0) = node_board (nodes ?i ! 0)" by auto
  show "node_board (nodes st' ! 0) = 0" using nb by (simp add: init_state_fields)
  show "arrays st' ! 0 = b" using prefix_nth[OF p, of 0] by (simp add: init_state_fields)
  show "board_of st' 0 = b" using bo by (simp add: init_state_fields board_of_def)
next
  let ?i = "init_state v b turn"
  fix st K' mv st'
  assume f: "iterate v t rnd 0 K ?i = Some (Inr (Finished st))"
    and c: "compute_move v t rnd K' st 0 = Some (Inr (mv, st'))"
  have tk: "tree_ok {} st" using iterate_total(2)[OF assms f] by simp
  from compute_move_iterate[OF c] obtain e where
    e: "iterate v t rnd 0 K' st = Some (Inr e)" "st' = state_of e" by blast
  from iterate_frame[OF tk assms, where v=v and rnd=rnd and K=K'] e
  have r: "prefix (arrays st) (arrays st')" "\<forall>k<length (nodes st). board_of st' k = board_of st k"
    by auto
  show "prefix (arrays st) (arrays st')" using r(1) .
  fix k assume "k < length (nodes st)"
  then show "board_of st' k = board_of st k" using r(2) by blast
qed

theorem boards_not_mutated_witness:
  "(0::real) \<le> 5
   \<and> (\<exists>mv st'. compute_move RAVE 5 (\<lambda>d. d) 3 (init_state RAVE col0_full 1) 0 = Some (Inr (mv, st'))
         \<and> 1 < length (arrays st') \<and> arrays st' ! 0 = col0_full \<and> board_of st' 0 = col0_full)"
proof -
  have t: "(0::real) \<le> 5" by simp
  have "returned (compute_move RAVE 5 (\<lambda>d. d) 3 (init_state RAVE col0_full 1) 0)
        \<and> (case compute_move RAVE 5 (\<lambda>d. d) 3 (init_state RAVE col0_full 1) 0 of
              Some (Inr (mv, st')) \<Rightarrow> 1 < length (arrays st') | _ \<Rightarrow> False)"
    by code_simp
  then obtain mv st' where
    c: "compute_move RAVE 5 (\<lambda>d. d) 3 (init_state RAVE col0_full 1) 0 = Some (Inr (mv, st'))"
    and l: "1 < length (arrays st')"
    by (auto dest!: returnedD)
  from boards_not_mutated[OF t, where v=RAVE and rnd="\<lambda>d. d" and K=3 and b=col0_full and turn=1] c
  have "arrays st' ! 0 = col0_full \<and> board_of st' 0 = col0_full" by blast
  with c l t show ?thesis by blast
qed

subsection \<open>Scores are defined where they are computed\<close>

text \<open>
  Claim C5. Whenever \<^verbatim>\<open>select\<close> starts a walk, that is, in the tree left by any number of
  completed iterations, every child of every node has at least one visit and so has its
  parent. So at each node the walk scores (the fully expanded ones), the UCT value of
  every child is a number: no division by zero and no logarithm of zero. The combined
  value is a number too, the walk ends at a node of the tree without raising, and
  \<^verbatim>\<open>select\<close> returns. A child without visits exists only between its creation by
  \<^verbatim>\<open>add_child\<close> and the backpropagation of the same iteration, and \<^verbatim>\<open>select\<close> returns it
  through \<^verbatim>\<open>pick_unvisited\<close> without scoring again.
\<close>

theorem scores_well_defined:
  assumes "0 \<le> t"
  shows "\<forall>st. iterate v t rnd 0 K (init_state v b turn) = Some (Inr (Finished st)) \<longrightarrow>
           (\<exists>nd<length (nodes st). select_walk v t st 0 = Some (Inr nd))
         \<and> (\<exists>leaf st1. select v t st 0 = Some (Inr (leaf, st1)))
         \<and> (\<forall>k<length (nodes st). \<forall>c\<in>set (node_children (nodes st ! k)).
               0 < node_n (nodes st ! c) \<and> 0 < node_n (nodes st ! k)
             \<and> (\<exists>u. uct (nodes st ! k) (nodes st ! c) = Inr (Some u))
             \<and> (\<exists>x. combined_value v t st k c = Inr (Some x)))"
proof (intro allI impI)
  fix st assume f: "iterate v t rnd 0 K (init_state v b turn) = Some (Inr (Finished st))"
  have tk: "tree_ok {} st" using iterate_total(2)[OF assms f] by simp
  have ne: "0 < length (nodes st)" using tree_ok_parents[OF tk] by (simp add: parents_ok_def)
  have 1: "\<exists>nd<length (nodes st). select_walk v t st 0 = Some (Inr nd)"
    using select_walk_ok[OF tk assms ne] .
  have 2: "\<exists>leaf st1. select v t st 0 = Some (Inr (leaf, st1))"
    using select_effect[OF tk assms, of v] by blast
  have 3: "0 < node_n (nodes st ! c) \<and> 0 < node_n (nodes st ! k)
             \<and> (\<exists>u. uct (nodes st ! k) (nodes st ! c) = Inr (Some u))
             \<and> (\<exists>x. combined_value v t st k c = Inr (Some x))"
    if "k < length (nodes st)" "c \<in> set (node_children (nodes st ! k))" for k c
  proof -
    note s = scores_defined[OF tk assms that]
    show ?thesis using s(1,2) s(3)[of v] uct_defined[OF s(1,2)] by blast
  qed
  show "(\<exists>nd<length (nodes st). select_walk v t st 0 = Some (Inr nd))
         \<and> (\<exists>leaf st1. select v t st 0 = Some (Inr (leaf, st1)))
         \<and> (\<forall>k<length (nodes st). \<forall>c\<in>set (node_children (nodes st ! k)).
               0 < node_n (nodes st ! c) \<and> 0 < node_n (nodes st ! k)
             \<and> (\<exists>u. uct (nodes st ! k) (nodes st ! c) = Inr (Some u))
             \<and> (\<exists>x. combined_value v t st k c = Inr (Some x)))"
    using 1 2 3 by blast
qed

theorem scores_well_defined_witness:
  "(0::real) \<le> 5
   \<and> (\<exists>st. iterate RAVE 5 (\<lambda>d. 0) 0 2 (init_state RAVE zeros 1) = Some (Inr (Finished st))
         \<and> node_children (nodes st ! 0) = [1, 2]
         \<and> 0 < node_n (nodes st ! 2) \<and> 0 < node_n (nodes st ! 0)
         \<and> (\<exists>x. combined_value RAVE 5 st 0 2 = Inr (Some x)))"
proof -
  have t: "(0::real) \<le> 5" by simp
  have "finished (iterate RAVE 5 (\<lambda>d. 0) 0 2 (init_state RAVE zeros 1))
        \<and> (case iterate RAVE 5 (\<lambda>d. 0) 0 2 (init_state RAVE zeros 1) of
              Some (Inr e) \<Rightarrow> length (nodes (state_of e)) = 3
                               \<and> node_children (nodes (state_of e) ! 0) = [1, 2]
            | _ \<Rightarrow> False)"
    by code_simp
  then obtain st where
    st: "iterate RAVE 5 (\<lambda>d. 0) 0 2 (init_state RAVE zeros 1) = Some (Inr (Finished st))"
    and l: "length (nodes st) = 3" and ch: "node_children (nodes st ! 0) = [1, 2]"
    by (auto dest!: finishedD simp: state_of_def)
  from scores_well_defined[OF t, where v=RAVE and rnd="\<lambda>d. 0" and K=2 and b=zeros and turn=1] st
  have a: "\<forall>k<length (nodes st). \<forall>c\<in>set (node_children (nodes st ! k)).
               0 < node_n (nodes st ! c) \<and> 0 < node_n (nodes st ! k)
             \<and> (\<exists>u. uct (nodes st ! k) (nodes st ! c) = Inr (Some u))
             \<and> (\<exists>x. combined_value RAVE 5 st k c = Inr (Some x))"
    by blast
  have "0 < length (nodes st)" "2 \<in> set (node_children (nodes st ! 0))" using l ch by simp_all
  with a have "0 < node_n (nodes st ! 2) \<and> 0 < node_n (nodes st ! 0)
         \<and> (\<exists>x. combined_value RAVE 5 st 0 2 = Inr (Some x))"
    by blast
  with st ch t show ?thesis by blast
qed

subsection \<open>The move that \<^verbatim>\<open>compute_move\<close> returns\<close>

lemma max_first_split:
  "\<exists>pre post. best # cs = pre @ max_first st best cs # post
      \<and> (\<forall>c\<in>set pre. node_n (nodes st ! c) < node_n (nodes st ! max_first st best cs))
      \<and> (\<forall>c\<in>set post. node_n (nodes st ! c) \<le> node_n (nodes st ! max_first st best cs))"
proof (induction cs arbitrary: best)
  case Nil
  have "[best] = [] @ best # []" by simp
  then show ?case by (metis empty_iff list.set(1) max_first.simps(1))
next
  case (Cons c cs)
  let ?n = "\<lambda>x. node_n (nodes st ! x)"
  show ?case
  proof (cases "?n c > ?n best")
    case True
    let ?sel = "max_first st c cs"
    have e: "max_first st best (c # cs) = ?sel" using True by simp
    from Cons.IH[of c] obtain pre post where
      h: "c # cs = pre @ ?sel # post" "\<forall>x\<in>set pre. ?n x < ?n ?sel" "\<forall>x\<in>set post. ?n x \<le> ?n ?sel"
      by blast
    have "?n c \<le> ?n ?sel"
    proof (cases pre)
      case Nil
      then have "c = ?sel" using h(1) by (metis append_Nil list.inject)
      then show ?thesis by (metis order_refl)
    next
      case (Cons a list)
      then have "c \<in> set pre" using h(1) by simp
      then show ?thesis using h(2) by fastforce
    qed
    then have "?n best < ?n ?sel" using True by simp
    then have "\<forall>x\<in>set (best # pre). ?n x < ?n ?sel" using h(2) by simp
    moreover have "best # c # cs = (best # pre) @ ?sel # post" using h(1) by simp
    ultimately show ?thesis unfolding e using h(3) by blast
  next
    case False
    let ?sel = "max_first st best cs"
    have e: "max_first st best (c # cs) = ?sel" using False by simp
    from Cons.IH[of best] obtain pre post where
      h: "best # cs = pre @ ?sel # post" "\<forall>x\<in>set pre. ?n x < ?n ?sel" "\<forall>x\<in>set post. ?n x \<le> ?n ?sel"
      by blast
    show ?thesis
    proof (cases pre)
      case Nil
      then have b: "?sel = best" "post = cs" using h(1) by (metis append_Nil list.inject)+
      have "best # c # cs = [] @ ?sel # (c # post)" using b by simp
      moreover have "\<forall>x\<in>set (c # post). ?n x \<le> ?n ?sel" using h(3) False b by simp
      ultimately show ?thesis unfolding e by (metis empty_iff list.set(1))
    next
      case (Cons a list)
      then have a: "a = best" "cs = list @ ?sel # post" using h(1) by (metis append_Cons list.inject)+
      have "?n best < ?n ?sel" using h(2) Cons a(1) by simp
      then have "\<forall>x\<in>set (best # c # list). ?n x < ?n ?sel" using h(2) Cons False by auto
      moreover have "best # c # cs = (best # c # list) @ ?sel # post" using a(2) by simp
      ultimately show ?thesis unfolding e using h(3) by blast
    qed
  qed
qed

lemma best_loop_max_first:
  "best_loop st (node_n (nodes st ! b)) (Some b) cs = Some (max_first st b cs)"
  by (induction cs arbitrary: b) auto

lemma best_child_first_max:
  assumes "node_children (nodes st ! k) = c # cs" "0 < node_n (nodes st ! c)"
  shows "best_child v st k = Some (max_first st c cs)"
  using assms best_loop_max_first[of st c cs] by (cases v) (simp_all add: best_child_def)

lemma best_child_none:
  "node_children (nodes st ! k) = [] \<Longrightarrow> best_child v st k = None"
  by (cases v) (simp_all add: best_child_def)

lemma one_cell_find:
  assumes "one_cell_apart pb cb"
  shows "\<exists>j<6. \<exists>i<7. find (\<lambda>(j, i). cell cb j i \<noteq> cell pb j i) [(j, i). j \<leftarrow> [0..<6], i \<leftarrow> [0..<7]] = Some (j, i)
          \<and> cell cb j i \<noteq> cell pb j i
          \<and> (\<forall>j'<6. \<forall>i'<7. (j', i') \<noteq> (j, i) \<longrightarrow> cell cb j' i' = cell pb j' i')"
proof -
  let ?P = "\<lambda>j i. cell cb j i \<noteq> cell pb j i"
  let ?g = "[(j, i). j \<leftarrow> [0..<6], i \<leftarrow> [0..<7]]"
  from assms obtain j i where h: "j < 6" "i < 7" "?P j i"
    "\<forall>j'<6. \<forall>i'<7. (j', i') \<noteq> (j, i) \<longrightarrow> cell cb j' i' = cell pb j' i'"
    unfolding one_cell_apart_def by blast
  have "find (\<lambda>(j, i). ?P j i) ?g \<noteq> None"
    unfolding find_grid_None using h(1-3) by auto
  then obtain p where p: "find (\<lambda>(j, i). ?P j i) ?g = Some p" by blast
  obtain j' i' where pe: "p = (j', i')" by (cases p)
  from find_grid_Some[OF p[unfolded pe]] have q: "?P j' i'" "j' < 6" "i' < 7" by simp_all
  with h(4) have "(j', i') = (j, i)" by blast
  then show ?thesis using p pe h by blast
qed

lemma kids_apart_step:
  assumes "shape_ok b" "turn = 1 \<or> turn = 2"
    and "tree_ok {} s" "kids_apart b turn s" "kids_step v s s'"
  shows "kids_apart b turn s'"
proof -
  have ne: "0 < length (nodes s)" using tree_ok_parents[OF assms(3)] by (simp add: parents_ok_def)
  have ka: "board_of s 0 = b" "node_turn (nodes s ! 0) = turn"
    "\<forall>c\<in>set (node_children (nodes s ! 0)). one_cell_apart b (board_of s c)"
    using assms(4) by (simp_all add: kids_apart_def)
  have ks: "node_turn (nodes s' ! 0) = node_turn (nodes s ! 0)"
    "\<forall>c<length (nodes s). board_of s' c = board_of s c"
    "node_children (nodes s' ! 0) = node_children (nodes s ! 0)
        \<or> (\<exists>j i. i < 7 \<and> lowest_empty (board_of s 0) i j
              \<and> node_children (nodes s' ! 0) = node_children (nodes s ! 0) @ [length (nodes s)]
              \<and> board_of s' (length (nodes s)) = drop_board v s 0 j i)"
    using assms(5) by (simp_all add: kids_step_def)
  have b0: "board_of s' 0 = b" using ks(2) ne ka(1) by simp
  have old: "one_cell_apart b (board_of s' c)" if c: "c \<in> set (node_children (nodes s ! 0))" for c
  proof -
    have "c < length (nodes s)" using tree_okD(2)[OF assms(3) ne c] .
    then show ?thesis using ks(2) ka(3) c by simp
  qed
  have all: "\<forall>c\<in>set (node_children (nodes s' ! 0)). one_cell_apart b (board_of s' c)"
    using ks(3)
  proof
    assume "node_children (nodes s' ! 0) = node_children (nodes s ! 0)"
    then show ?thesis using old by simp
  next
    assume "\<exists>j i. i < 7 \<and> lowest_empty (board_of s 0) i j
              \<and> node_children (nodes s' ! 0) = node_children (nodes s ! 0) @ [length (nodes s)]
              \<and> board_of s' (length (nodes s)) = drop_board v s 0 j i"
    then obtain j i where h: "i < 7" "lowest_empty (board_of s 0) i j"
      "node_children (nodes s' ! 0) = node_children (nodes s ! 0) @ [length (nodes s)]"
      "board_of s' (length (nodes s)) = drop_board v s 0 j i" by blast
    have sh: "shape_ok (board_of s 0)" using assms(1) ka(1) by simp
    have mk: "child_mark v (node_turn (nodes s ! 0)) \<noteq> 0"
      using child_mark_nonzero[of "node_turn (nodes s ! 0)" v] assms(2) ka(2) by simp
    have "one_cell_apart (board_of s 0) (drop_board v s 0 j i)"
      by (rule drop_one_cell[OF sh h(2,1) mk])
    then have "one_cell_apart b (board_of s' (length (nodes s)))" using h(4) ka(1) by simp
    then show ?thesis unfolding h(3) using old by simp
  qed
  show ?thesis unfolding kids_apart_def using b0 ks(1) ka(2) all by simp
qed

lemma init_turn: "turn = 1 \<or> turn = 2 \<Longrightarrow>
  node_turn (nodes (init_state v b turn) ! 0) = 1 \<or> node_turn (nodes (init_state v b turn) ! 0) = 2"
  by (cases v) (auto simp: init_state_fields)

lemma iterate_kids_apart:
  assumes "0 \<le> t" "shape_ok b" "turn = 1 \<or> turn = 2"
    and "iterate v t rnd 0 K (init_state v b turn) = Some (Inr (Finished st))"
  shows "tree_ok {} st" "board_of st 0 = b"
    "\<forall>c\<in>set (node_children (nodes st ! 0)). one_cell_apart b (board_of st c)"
proof -
  let ?i = "init_state v b turn"
  let ?rt = "node_turn (nodes ?i ! 0)"
  have rt: "?rt = 1 \<or> ?rt = 2" using init_turn[OF assms(3)] .
  have k0: "kids_apart b ?rt ?i"
    by (simp add: kids_apart_def init_state_fields board_of_def)
  have "\<exists>e. iterate v t rnd 0 K ?i = Some (Inr e) \<and> prefix (arrays ?i) (arrays (state_of e))
           \<and> kids_apart b ?rt (state_of e)
           \<and> (\<forall>st'. e = Finished st' \<longrightarrow>
                 tree_ok {} st' \<and> node_n (nodes st' ! 0) = node_n (nodes ?i ! 0) + K)"
    by (rule iterate_inv[where P="kids_apart b ?rt", OF init_tree_ok assms(1) k0])
       (rule kids_apart_step[OF assms(2) rt])
  with assms(4) have "kids_apart b ?rt st" "tree_ok {} st" by (auto simp: state_of_def)
  then show "tree_ok {} st" "board_of st 0 = b"
    "\<forall>c\<in>set (node_children (nodes st ! 0)). one_cell_apart b (board_of st c)"
    by (simp_all add: kids_apart_def)
qed

text \<open>
  Claim C6. On a root built over a 6 by 7 board for player 1 or 2, the loop of
  \<^verbatim>\<open>compute_move\<close> uses up its budget of \<open>K\<close> iterations and \<^verbatim>\<open>compute_move\<close> returns. With
  no child at the root the result is \<^verbatim>\<open>(-1, -1)\<close>; otherwise the result is the row and
  column of the one cell in which the board of the selected child differs from the
  root's board, where the selected child has the most visits and is the first such child
  in the list of children (every child before it has fewer visits, none after it has
  more).
\<close>

theorem most_visited_child_move:
  assumes "0 \<le> t" and "shape_ok b" and "turn = 1 \<or> turn = 2"
  shows "\<exists>st. iterate v t rnd 0 K (init_state v b turn) = Some (Inr (Finished st))
         \<and> compute_move v t rnd K (init_state v b turn) 0 = Some (Inr (extract_move v st 0, st))
         \<and> (node_children (nodes st ! 0) = [] \<longrightarrow> extract_move v st 0 = (-1, -1))
         \<and> (node_children (nodes st ! 0) \<noteq> [] \<longrightarrow>
              (\<exists>pre sel post. node_children (nodes st ! 0) = pre @ sel # post
                 \<and> (\<forall>c\<in>set pre. node_n (nodes st ! c) < node_n (nodes st ! sel))
                 \<and> (\<forall>c\<in>set post. node_n (nodes st ! c) \<le> node_n (nodes st ! sel))
                 \<and> (\<exists>j<6. \<exists>i<7. extract_move v st 0 = (int j, int i)
                       \<and> cell (board_of st sel) j i \<noteq> cell (board_of st 0) j i
                       \<and> (\<forall>j'<6. \<forall>i'<7. (j', i') \<noteq> (j, i) \<longrightarrow>
                             cell (board_of st sel) j' i' = cell (board_of st 0) j' i'))))"
proof -
  from iterate_finishes[OF assms(2,3,1), of v rnd K] obtain st where
    f: "iterate v t rnd 0 K (init_state v b turn) = Some (Inr (Finished st))" by blast
  have 1: "compute_move v t rnd K (init_state v b turn) 0 = Some (Inr (extract_move v st 0, st))"
    using f by (simp add: compute_move_def)
  have 2: "node_children (nodes st ! 0) = [] \<longrightarrow> extract_move v st 0 = (-1, -1)"
    by (simp add: extract_move_def best_child_none)
  have 3: "\<exists>pre sel post. node_children (nodes st ! 0) = pre @ sel # post
                 \<and> (\<forall>c\<in>set pre. node_n (nodes st ! c) < node_n (nodes st ! sel))
                 \<and> (\<forall>c\<in>set post. node_n (nodes st ! c) \<le> node_n (nodes st ! sel))
                 \<and> (\<exists>j<6. \<exists>i<7. extract_move v st 0 = (int j, int i)
                       \<and> cell (board_of st sel) j i \<noteq> cell (board_of st 0) j i
                       \<and> (\<forall>j'<6. \<forall>i'<7. (j', i') \<noteq> (j, i) \<longrightarrow>
                             cell (board_of st sel) j' i' = cell (board_of st 0) j' i'))"
    if ne: "node_children (nodes st ! 0) \<noteq> []"
  proof -
    note inv = iterate_kids_apart[OF assms f]
    have l0: "0 < length (nodes st)" using tree_ok_parents[OF inv(1)] by (simp add: parents_ok_def)
    from ne obtain c cs where ch: "node_children (nodes st ! 0) = c # cs"
      by (cases "node_children (nodes st ! 0)") auto
    have "c \<in> set (node_children (nodes st ! 0))" using ch by simp
    from tree_okD(5)[OF inv(1) l0 this] have cpos: "0 < node_n (nodes st ! c)" by simp
    let ?sel = "max_first st c cs"
    have bc: "best_child v st 0 = Some ?sel" using best_child_first_max[OF ch cpos] .
    from max_first_split[of c cs st] obtain pre post where
      sp: "c # cs = pre @ ?sel # post"
      "\<forall>x\<in>set pre. node_n (nodes st ! x) < node_n (nodes st ! ?sel)"
      "\<forall>x\<in>set post. node_n (nodes st ! x) \<le> node_n (nodes st ! ?sel)" by blast
    have "?sel \<in> set (node_children (nodes st ! 0))" unfolding ch sp(1) by simp
    then have "one_cell_apart (board_of st 0) (board_of st ?sel)" using inv(2,3) by simp
    from one_cell_find[OF this] obtain j i where
      ji: "j < 6" "i < 7"
      "find (\<lambda>(j, i). cell (board_of st ?sel) j i \<noteq> cell (board_of st 0) j i)
          [(j, i). j \<leftarrow> [0..<6], i \<leftarrow> [0..<7]] = Some (j, i)"
      "cell (board_of st ?sel) j i \<noteq> cell (board_of st 0) j i"
      "\<forall>j'<6. \<forall>i'<7. (j', i') \<noteq> (j, i) \<longrightarrow> cell (board_of st ?sel) j' i' = cell (board_of st 0) j' i'"
      by blast
    have ex: "extract_move v st 0 = (int j, int i)"
      unfolding extract_move_def bc using ji(3) by (simp only: option.case prod.case)
    show ?thesis using ch sp ji(1,2,4,5) ex by metis
  qed
  show ?thesis
    by (rule exI[of _ st], intro conjI impI) (fact f, fact 1, use 2 in blast, rule 3)
qed

theorem most_visited_child_move_witness:
  "(0::real) \<le> 5 \<and> shape_ok zeros \<and> ((1::int) = 1 \<or> (1::int) = 2)
   \<and> (\<exists>st. iterate RAVE 5 (\<lambda>d. 0) 0 3 (init_state RAVE zeros 1) = Some (Inr (Finished st))
         \<and> node_children (nodes st ! 0) = [1, 2, 3]
         \<and> compute_move RAVE 5 (\<lambda>d. 0) 3 (init_state RAVE zeros 1) 0 = Some (Inr ((0, 0), st))
         \<and> (\<exists>sel\<in>set (node_children (nodes st ! 0)).
               cell (board_of st sel) 0 0 \<noteq> cell (board_of st 0) 0 0))"
proof -
  have t: "(0::real) \<le> 5" by simp
  have s: "shape_ok zeros" by code_simp
  have u: "(1::int) = 1 \<or> (1::int) = 2" by simp
  have "case compute_move RAVE 5 (\<lambda>d. 0) 3 (init_state RAVE zeros 1) 0 of
              Some (Inr (mv, st')) \<Rightarrow> mv = (0, 0) \<and> node_children (nodes st' ! 0) = [1, 2, 3]
            | _ \<Rightarrow> False"
    by code_simp
  then obtain mv st' where
    c: "compute_move RAVE 5 (\<lambda>d. 0) 3 (init_state RAVE zeros 1) 0 = Some (Inr (mv, st'))"
    and m: "mv = (0, 0)" "node_children (nodes st' ! 0) = [1, 2, 3]"
    by (auto split: option.splits sum.splits)
  from most_visited_child_move[OF t s u, where v=RAVE and rnd="\<lambda>d. 0" and K=3] obtain st where
    th: "iterate RAVE 5 (\<lambda>d. 0) 0 3 (init_state RAVE zeros 1) = Some (Inr (Finished st))"
    "compute_move RAVE 5 (\<lambda>d. 0) 3 (init_state RAVE zeros 1) 0 = Some (Inr (extract_move RAVE st 0, st))"
    "node_children (nodes st ! 0) \<noteq> [] \<longrightarrow>
              (\<exists>pre sel post. node_children (nodes st ! 0) = pre @ sel # post
                 \<and> (\<forall>c\<in>set pre. node_n (nodes st ! c) < node_n (nodes st ! sel))
                 \<and> (\<forall>c\<in>set post. node_n (nodes st ! c) \<le> node_n (nodes st ! sel))
                 \<and> (\<exists>j<6. \<exists>i<7. extract_move RAVE st 0 = (int j, int i)
                       \<and> cell (board_of st sel) j i \<noteq> cell (board_of st 0) j i
                       \<and> (\<forall>j'<6. \<forall>i'<7. (j', i') \<noteq> (j, i) \<longrightarrow>
                             cell (board_of st sel) j' i' = cell (board_of st 0) j' i')))"
    by blast
  from th(2) c m have e: "st' = st" "extract_move RAVE st 0 = (0, 0)" by simp_all
  have ne: "node_children (nodes st ! 0) \<noteq> []" using m(2) e(1) by simp
  from th(3)[rule_format, OF ne] e(2)
  have "\<exists>sel\<in>set (node_children (nodes st ! 0)).
               cell (board_of st sel) 0 0 \<noteq> cell (board_of st 0) 0 0"
    by (auto simp del: One_nat_def)
  with th(1) c m e t s u show ?thesis by auto
qed

end
